theory Spec2Isabelle
  imports Main "HOL-Library.Word" "HOL-Library.Extended_Nat" "HOL-Library.Multiset" "HOL-Library.Monad_Syntax" "HOL-Library.AList"
begin

unbundle bit_operations_syntax

section \<open>Optimizer rule: Sort + Limit as TopN (optimizer/sort_limit_as_topn.cpp)\<close>

text \<open>
  \<open>PlanType\<close> is the enum of \<open>abstract_plan.h\<close>.  A plan node carries its output schema
  and its vector of children; \<open>LimitPlanNode\<close> adds \<open>limit_\<close>, \<open>SortPlanNode\<close> adds its
  order-bys and \<open>TopNPlanNode\<close> both.  Every other node kind keeps its kind tag and an
  opaque payload \<open>'x\<close>.  The schema type \<open>'s\<close> and the order-by type \<open>'o\<close> are parameters
  (their headers are outside the sources read here).
\<close>

datatype PlanType =
  SeqScan | IndexScan | Insert | Update | Delete | Aggregation | Limit | NestedLoopJoin
  | NestedIndexJoin | HashJoin | Filter | Values | Projection | Sort | TopN | TopNPerGroup
  | MockScan | InitCheck | Window

datatype ('s, 'o, 'x) plan =
    LimitPlanNode 's "('s, 'o, 'x) plan list" nat
  | SortPlanNode 's "('s, 'o, 'x) plan list" 'o
  | TopNPlanNode 's "('s, 'o, 'x) plan list" 'o nat
  | OtherPlanNode PlanType 'x 's "('s, 'o, 'x) plan list"

fun GetType :: "('s, 'o, 'x) plan \<Rightarrow> PlanType" where
  "GetType (LimitPlanNode s cs n) = Limit"
| "GetType (SortPlanNode s cs ob) = Sort"
| "GetType (TopNPlanNode s cs ob n) = TopN"
| "GetType (OtherPlanNode t x s cs) = t"

fun GetChildren :: "('s, 'o, 'x) plan \<Rightarrow> ('s, 'o, 'x) plan list" where
  "GetChildren (LimitPlanNode s cs n) = cs"
| "GetChildren (SortPlanNode s cs ob) = cs"
| "GetChildren (TopNPlanNode s cs ob n) = cs"
| "GetChildren (OtherPlanNode t x s cs) = cs"

fun output_schema :: "('s, 'o, 'x) plan \<Rightarrow> 's" where
  "output_schema (LimitPlanNode s cs n) = s"
| "output_schema (SortPlanNode s cs ob) = s"
| "output_schema (TopNPlanNode s cs ob n) = s"
| "output_schema (OtherPlanNode t x s cs) = s"

text \<open>\<open>BUSTUB_PLAN_NODE_CLONE_WITH_CHILDREN\<close>: a copy of the node with \<open>children_\<close> replaced.\<close>

fun CloneWithChildren :: "('s, 'o, 'x) plan \<Rightarrow> ('s, 'o, 'x) plan list \<Rightarrow> ('s, 'o, 'x) plan" where
  "CloneWithChildren (LimitPlanNode s cs n) cs' = LimitPlanNode s cs' n"
| "CloneWithChildren (SortPlanNode s cs ob) cs' = SortPlanNode s cs' ob"
| "CloneWithChildren (TopNPlanNode s cs ob n) cs' = TopNPlanNode s cs' ob n"
| "CloneWithChildren (OtherPlanNode t x s cs) cs' = OtherPlanNode t x s cs'"

lemma plan_child_size [termination_simp]:
  "c \<in> set (GetChildren p) \<Longrightarrow> size c < size p"
  by (cases p) (auto dest!: size_list_estimation' [where f = size and y = "size c"] simp: less_Suc_eq_le)

text \<open>
  The part of \<open>OptimizeSortLimitAsTopN\<close> after the children have been rewritten (lines 18-29).
  \<open>optimized_plan->children_[0]\<close> of a node without children is an out-of-range read of a
  vector, and a \<open>dynamic_cast\<close> to a reference of the wrong class throws: the model returns
  \<open>None\<close> in both cases.  The \<open>TopNPlanNode\<close> constructor receives the output schema of the
  Limit node, \<open>optimized_plan->children_[0]\<close> as its only child, \<open>sort_plan.GetOrderBy()\<close>
  and \<open>limit_plan.limit_\<close>.
\<close>

definition rewrite_top :: "('s, 'o, 'x) plan \<Rightarrow> ('s, 'o, 'x) plan option" where
  "rewrite_top optimized_plan =
     (if GetType optimized_plan = Limit then
        (case optimized_plan of
           LimitPlanNode s cs limit \<Rightarrow>
             (case cs of
                [] \<Rightarrow> None
              | child # rest \<Rightarrow>
                  if GetType child = Sort then
                    (case child of
                       SortPlanNode s' cs' order_bys \<Rightarrow>
                         Some (TopNPlanNode (output_schema optimized_plan) [child] order_bys limit)
                     | _ \<Rightarrow> None)
                  else Some optimized_plan)
         | _ \<Rightarrow> None)
      else Some optimized_plan)"

text \<open>
  The rule itself: the children are rewritten first (lines 11-15; \<open>those\<close> fails as soon as
  the rewrite of one child has failed), the node is cloned over them (line 16), and the
  clone is inspected.
\<close>

function OptimizeSortLimitAsTopN :: "('s, 'o, 'x) plan \<Rightarrow> ('s, 'o, 'x) plan option" where
  "OptimizeSortLimitAsTopN p =
     (case those (map OptimizeSortLimitAsTopN (GetChildren p)) of
        None \<Rightarrow> None
      | Some optimized_children \<Rightarrow> rewrite_top (CloneWithChildren p optimized_children))"
  by pat_completeness auto
termination
  by (relation "measure size") (auto simp: plan_child_size)

section \<open>Disk scheduler (storage/disk/disk_scheduler.cpp)\<close>

text \<open>
  A \<open>DiskRequest\<close> holds the direction, the buffer, the page id and the promise to fulfil.
  The promise is identified by a number; the buffer by its address.
\<close>

record DiskRequest =
  is_write :: bool
  req_data :: nat
  req_page_id :: int
  callback :: nat

text \<open>
  The \<open>DiskManager\<close> is an external collaborator: \<open>WritePage\<close> and \<open>ReadPage\<close> return
  \<open>void\<close>.  They are parameters of the model, acting on a world \<open>'w\<close> (the disk and the page
  buffers); the Boolean they return here says whether the I/O succeeded, which the \<open>void\<close>
  call does not hand to the scheduler.
\<close>

record 'w DiskManager =
  WritePage :: "int \<Rightarrow> nat \<Rightarrow> 'w \<Rightarrow> bool \<times> 'w"
  ReadPage :: "int \<Rightarrow> nat \<Rightarrow> 'w \<Rightarrow> bool \<times> 'w"

text \<open>
  The worker's state: the world, the DiskManager calls issued so far (oldest first, with
  the outcome of each), and the promises fulfilled so far (oldest first, with the value
  passed to \<open>set_value\<close>).
\<close>

record 'w worker =
  world :: 'w
  issued :: "(DiskRequest \<times> bool) list"
  fulfilled :: "(nat \<times> bool) list"

datatype worker_status = Exited | Waiting

text \<open>One iteration of the loop body of \<open>StartWorkerThread\<close> (lines 52-58).\<close>

definition process_request :: "'w DiskManager \<Rightarrow> DiskRequest \<Rightarrow> 'w worker \<Rightarrow> 'w worker" where
  "process_request dm r st =
     (let (io_ok, w') =
            (if is_write r then WritePage dm (req_page_id r) (req_data r) (world st)
             else ReadPage dm (req_page_id r) (req_data r) (world st))
      in st\<lparr>world := w',
             issued := issued st @ [(r, io_ok)],
             fulfilled := fulfilled st @ [(callback r, True)]\<rparr>)"

text \<open>
  \<open>StartWorkerThread\<close> over the items the channel will deliver, in the order they were put:
  \<open>std::nullopt\<close> ends the loop; when nothing is left the worker is blocked in \<open>Get\<close>.
\<close>

fun StartWorkerThread ::
  "'w DiskManager \<Rightarrow> DiskRequest option list \<Rightarrow> 'w worker \<Rightarrow> worker_status \<times> 'w worker" where
  "StartWorkerThread dm [] st = (Waiting, st)"
| "StartWorkerThread dm (None # q) st = (Exited, st)"
| "StartWorkerThread dm (Some r # q) st = StartWorkerThread dm q (process_request dm r st)"

text \<open>
  The reading of the claim: the value a request's promise receives is the outcome of its
  DiskManager call (failure for a failed call, success for a successful one).
\<close>

definition signals_follow_io :: "'w worker \<Rightarrow> bool" where
  "signals_follow_io st = (map snd (fulfilled st) = map snd (issued st))"

text \<open>A DiskManager whose writes and reads all fail, leaving the world as it is.\<close>

definition failing_dm :: "unit DiskManager" where
  "failing_dm = \<lparr>WritePage = (\<lambda>p d w. (False, w)), ReadPage = (\<lambda>p d w. (False, w))\<rparr>"

definition idle_worker :: "unit worker" where
  "idle_worker = \<lparr>world = (), issued = [], fulfilled = []\<rparr>"

section \<open>Aggregation executor (execution/aggregation_executor.cpp, aggregation_executor.h)\<close>

datatype AggregationType =
  CountStarAggregate | CountAggregate | SumAggregate | MinAggregate | MaxAggregate

text \<open>
  The type system is an external collaborator.  Of \<open>Value\<close> the executor builds only
  \<open>ValueFactory::GetIntegerValue(n)\<close> and \<open>ValueFactory::GetNullValueByType(TypeId::INTEGER)\<close>;
  any other value reaches it from the child's tuples.  \<open>IsNull\<close>, \<open>Add\<close> and the two
  comparisons (as the test \<open>== CmpBool::CmpTrue\<close>) are parameters.
\<close>

datatype 'a Value = IntegerValue int | NullInteger | ChildValue 'a

record 'a ValueOps =
  IsNull :: "'a Value \<Rightarrow> bool"
  Add :: "'a Value \<Rightarrow> 'a Value \<Rightarrow> 'a Value"
  CompareLessThan :: "'a Value \<Rightarrow> 'a Value \<Rightarrow> bool"
  CompareGreaterThan :: "'a Value \<Rightarrow> 'a Value \<Rightarrow> bool"

text \<open>
  The plan node: group-by expressions, aggregate expressions (an expression is its
  \<open>Evaluate\<close> on a child tuple) and the aggregation types.
\<close>

record ('t, 'a) AggregationPlanNode =
  group_bys :: "('t \<Rightarrow> 'a Value) list"
  aggregates :: "('t \<Rightarrow> 'a Value) list"
  agg_types :: "AggregationType list"

text \<open>\<open>GenerateInitialAggregateValue\<close>: one value per aggregation type.\<close>

fun initial_value :: "AggregationType \<Rightarrow> 'a Value" where
  "initial_value CountStarAggregate = IntegerValue 0"
| "initial_value CountAggregate = NullInteger"
| "initial_value SumAggregate = NullInteger"
| "initial_value MinAggregate = NullInteger"
| "initial_value MaxAggregate = NullInteger"

definition GenerateInitialAggregateValue :: "AggregationType list \<Rightarrow> 'a Value list" where
  "GenerateInitialAggregateValue types = map initial_value types"

text \<open>The body of the \<open>switch\<close> of \<open>CombineAggregateValues\<close> for one aggregate.\<close>

fun combine_one :: "'a ValueOps \<Rightarrow> AggregationType \<Rightarrow> 'a Value \<Rightarrow> 'a Value \<Rightarrow> 'a Value" where
  "combine_one ops CountStarAggregate old_val new_val =
     Add ops (if IsNull ops old_val then IntegerValue 0 else old_val) (IntegerValue 1)"
| "combine_one ops CountAggregate old_val new_val =
     (if \<not> IsNull ops new_val
      then Add ops (if IsNull ops old_val then IntegerValue 0 else old_val) (IntegerValue 1)
      else old_val)"
| "combine_one ops SumAggregate old_val new_val =
     (if \<not> IsNull ops new_val
      then (if IsNull ops old_val then new_val else Add ops old_val new_val)
      else old_val)"
| "combine_one ops MinAggregate old_val new_val =
     (if \<not> IsNull ops new_val
      then (if IsNull ops old_val then new_val
            else if CompareLessThan ops new_val old_val then new_val else old_val)
      else old_val)"
| "combine_one ops MaxAggregate old_val new_val =
     (if \<not> IsNull ops new_val
      then (if IsNull ops old_val then new_val
            else if CompareGreaterThan ops new_val old_val then new_val else old_val)
      else old_val)"

text \<open>
  \<open>CombineAggregateValues\<close>: the loop runs \<open>i\<close> over the aggregate expressions and indexes
  \<open>result->aggregates_\<close>, \<open>input.aggregates_\<close> and \<open>agg_types_\<close> with it.  An index out of
  range of one of the three vectors is undefined behaviour: \<open>None\<close>.
\<close>

fun combine_from ::
  "'a ValueOps \<Rightarrow> AggregationType list \<Rightarrow> nat \<Rightarrow> nat \<Rightarrow> 'a Value list \<Rightarrow> 'a Value list
     \<Rightarrow> 'a Value list option" where
  "combine_from ops types 0 i result input = Some result"
| "combine_from ops types (Suc todo) i result input =
     (if i < length result \<and> i < length input \<and> i < length types
      then combine_from ops types todo (Suc i)
             (result[i := combine_one ops (types ! i) (result ! i) (input ! i)]) input
      else None)"

definition CombineAggregateValues ::
  "'a ValueOps \<Rightarrow> ('t, 'a) AggregationPlanNode \<Rightarrow> 'a Value list \<Rightarrow> 'a Value list
     \<Rightarrow> 'a Value list option" where
  "CombineAggregateValues ops plan result input =
     combine_from ops (agg_types plan) (length (aggregates plan)) 0 result input"

text \<open>
  The hash table \<open>ht_\<close> (an \<open>unordered_map\<close> from \<open>AggregateKey\<close> to \<open>AggregateValue\<close>) is a
  list of entries in the order the iterator visits them.  Whether two keys are the same key
  of the map (same hash, \<open>operator==\<close>) is the parameter \<open>same_key\<close>.
\<close>

type_synonym 'a agg_table = "('a Value list \<times> 'a Value list) list"

fun ht_find :: "('k \<Rightarrow> 'k \<Rightarrow> bool) \<Rightarrow> ('k \<times> 'v) list \<Rightarrow> 'k \<Rightarrow> nat option" where
  "ht_find same_key [] k = None"
| "ht_find same_key (e # es) k =
     (if same_key (fst e) k then Some 0 else map_option Suc (ht_find same_key es k))"

text \<open>
  \<open>InsertCombine\<close>: \<open>count\<close>, \<open>insert\<close> of the initial value when the key is new, then
  \<open>ht_[agg_key]\<close>, which inserts an empty \<open>AggregateValue\<close> when it finds no entry.
\<close>

definition InsertCombine ::
  "'a ValueOps \<Rightarrow> ('a Value list \<Rightarrow> 'a Value list \<Rightarrow> bool) \<Rightarrow> ('t, 'a) AggregationPlanNode
     \<Rightarrow> 'a agg_table \<Rightarrow> 'a Value list \<Rightarrow> 'a Value list \<Rightarrow> 'a agg_table option" where
  "InsertCombine ops same_key plan ht agg_key agg_val =
     (let ht1 = (if ht_find same_key ht agg_key = None
                 then ht @ [(agg_key, GenerateInitialAggregateValue (agg_types plan))] else ht);
          (ht2, i) = (case ht_find same_key ht1 agg_key of
                        Some i \<Rightarrow> (ht1, i)
                      | None \<Rightarrow> (ht1 @ [(agg_key, [])], length ht1))
      in case CombineAggregateValues ops plan (snd (ht2 ! i)) agg_val of
           None \<Rightarrow> None
         | Some r \<Rightarrow> Some (ht2[i := (fst (ht2 ! i), r)]))"

text \<open>
  The executor: the table, the position of \<open>aht_iterator_\<close> in it (\<open>End\<close> is the length of
  the table) and the flag \<open>copy_with_empty_\<close>.
\<close>

record 'a AggregationExecutor =
  ht :: "'a agg_table"
  aht_iterator :: nat
  copy_with_empty :: bool

text \<open>
  The constructor makes an empty table and an iterator at its start; it does not
  initialise \<open>copy_with_empty_\<close>, whose value is the argument here.
\<close>

definition new_AggregationExecutor :: "bool \<Rightarrow> 'a AggregationExecutor" where
  "new_AggregationExecutor b = \<lparr>ht = [], aht_iterator = 0, copy_with_empty = b\<rparr>"

definition MakeAggregateKey :: "('t, 'a) AggregationPlanNode \<Rightarrow> 't \<Rightarrow> 'a Value list" where
  "MakeAggregateKey plan tuple = map (\<lambda>expr. expr tuple) (group_bys plan)"

definition MakeAggregateValue :: "('t, 'a) AggregationPlanNode \<Rightarrow> 't \<Rightarrow> 'a Value list" where
  "MakeAggregateValue plan tuple = map (\<lambda>expr. expr tuple) (aggregates plan)"

text \<open>
  The \<open>while\<close> loop of \<open>Init\<close> over the tuples the child produces after its own \<open>Init\<close>.
\<close>

fun drain_child ::
  "'a ValueOps \<Rightarrow> ('a Value list \<Rightarrow> 'a Value list \<Rightarrow> bool) \<Rightarrow> ('t, 'a) AggregationPlanNode
     \<Rightarrow> 't list \<Rightarrow> 'a agg_table \<Rightarrow> 'a agg_table option" where
  "drain_child ops same_key plan [] table = Some table"
| "drain_child ops same_key plan (child_tuple # rest) table =
     (case InsertCombine ops same_key plan table
             (MakeAggregateKey plan child_tuple) (MakeAggregateValue plan child_tuple) of
        None \<Rightarrow> None
      | Some table' \<Rightarrow> drain_child ops same_key plan rest table')"

text \<open>\<open>Init\<close> does not clear the table; it resets the iterator and the flag.\<close>

definition agg_Init ::
  "'a ValueOps \<Rightarrow> ('a Value list \<Rightarrow> 'a Value list \<Rightarrow> bool) \<Rightarrow> ('t, 'a) AggregationPlanNode
     \<Rightarrow> 't list \<Rightarrow> 'a AggregationExecutor \<Rightarrow> 'a AggregationExecutor option" where
  "agg_Init ops same_key plan child_tuples ex =
     (case drain_child ops same_key plan child_tuples (ht ex) of
        None \<Rightarrow> None
      | Some table \<Rightarrow> Some \<lparr>ht = table, aht_iterator = 0, copy_with_empty = False\<rparr>)"

text \<open>
  \<open>Next\<close>: \<open>Some row\<close> is the return value \<open>true\<close> with the tuple written to \<open>*tuple\<close>,
  \<open>None\<close> is \<open>false\<close>.
\<close>

definition agg_Next ::
  "('t, 'a) AggregationPlanNode \<Rightarrow> 'a AggregationExecutor
     \<Rightarrow> 'a Value list option \<times> 'a AggregationExecutor" where
  "agg_Next plan ex =
     (if ht ex \<noteq> [] then
        (if aht_iterator ex \<ge> length (ht ex) then (None, ex)
         else (Some (fst (ht ex ! aht_iterator ex) @ snd (ht ex ! aht_iterator ex)),
               ex\<lparr>aht_iterator := Suc (aht_iterator ex)\<rparr>))
      else if copy_with_empty ex then (None, ex)
      else if group_bys plan = []
        then (Some (GenerateInitialAggregateValue (agg_types plan)), ex\<lparr>copy_with_empty := True\<rparr>)
        else (None, ex\<lparr>copy_with_empty := True\<rparr>))"

text \<open>The executor after \<open>n\<close> calls of \<open>Next\<close>, and what call number \<open>n + 1\<close> returns.\<close>

fun after_calls ::
  "('t, 'a) AggregationPlanNode \<Rightarrow> nat \<Rightarrow> 'a AggregationExecutor \<Rightarrow> 'a AggregationExecutor" where
  "after_calls plan 0 ex = ex"
| "after_calls plan (Suc n) ex = after_calls plan n (snd (agg_Next plan ex))"

definition nth_call ::
  "('t, 'a) AggregationPlanNode \<Rightarrow> nat \<Rightarrow> 'a AggregationExecutor \<Rightarrow> 'a Value list option" where
  "nth_call plan n ex = fst (agg_Next plan (after_calls plan n ex))"

text \<open>Concrete inputs: integer value operations and two plans over rows of integers.\<close>

fun int_add :: "unit Value \<Rightarrow> unit Value \<Rightarrow> unit Value" where
  "int_add (IntegerValue a) (IntegerValue b) = IntegerValue (a + b)"
| "int_add a b = NullInteger"

fun int_less :: "unit Value \<Rightarrow> unit Value \<Rightarrow> bool" where
  "int_less (IntegerValue a) (IntegerValue b) = (a < b)"
| "int_less a b = False"

definition int_ops :: "unit ValueOps" where
  "int_ops = \<lparr>IsNull = (\<lambda>v. v = NullInteger), Add = int_add,
              CompareLessThan = int_less, CompareGreaterThan = (\<lambda>a b. int_less b a)\<rparr>"

definition count_star_sum_plan :: "(int list, unit) AggregationPlanNode" where
  "count_star_sum_plan =
     \<lparr>group_bys = [], aggregates = [(\<lambda>t. IntegerValue 1), (\<lambda>t. IntegerValue (t ! 0))],
      agg_types = [CountStarAggregate, SumAggregate]\<rparr>"

definition grouped_count_plan :: "(int list, unit) AggregationPlanNode" where
  "grouped_count_plan =
     \<lparr>group_bys = [(\<lambda>t. IntegerValue (t ! 0))], aggregates = [(\<lambda>t. IntegerValue (t ! 1))],
      agg_types = [CountAggregate]\<rparr>"

section \<open>LRU-K replacer (buffer/lru_k_replacer.cpp, lru_k_replacer.h)\<close>

text \<open>
  \<open>size_t\<close> is a 64-bit word; a frame identifier (\<open>frame_id_t\<close>, a signed 32-bit integer on
  which no arithmetic is done) is an \<open>int\<close>.  The three \<open>unordered_map\<close>s are read with
  \<open>operator[]\<close>, which yields 0, \<open>false\<close> or the empty list for a key that is absent: they
  are total functions with these defaults.  \<open>new_frame_\<close> and \<open>cache_frame_\<close> are the two
  lists, front first.  \<open>new_locate_\<close> and \<open>cache_locate_\<close> hold, for exactly the frames of
  the respective list, the iterator to the frame's node (an entry is written when the node
  is inserted and erased when the node is erased): erasing through the stored iterator is
  the removal of the frame's node, and undefined when the frame has no node.
\<close>

type_synonym frame_id_t = int
type_synonym size_t = "64 word"

record LRUKReplacer =
  current_timestamp :: size_t
  curr_size :: size_t
  max_size :: size_t
  replacer_size :: size_t
  k :: size_t
  time_frame :: "frame_id_t \<Rightarrow> size_t list"
  recorded_cnt :: "frame_id_t \<Rightarrow> size_t"
  evictable :: "frame_id_t \<Rightarrow> bool"
  new_frame :: "frame_id_t list"
  cache_frame :: "(frame_id_t \<times> size_t) list"

datatype replacer_error = InvalidFrame | NonEvictable | SelfDeadlock | UndefinedBehaviour

definition new_LRUKReplacer :: "size_t \<Rightarrow> size_t \<Rightarrow> LRUKReplacer" where
  "new_LRUKReplacer num_frames k' =
     \<lparr>current_timestamp = 0, curr_size = 0, max_size = num_frames, replacer_size = num_frames,
      k = k', time_frame = (\<lambda>f. []), recorded_cnt = (\<lambda>f. 0), evictable = (\<lambda>f. False),
      new_frame = [], cache_frame = []\<rparr>"

definition Size :: "LRUKReplacer \<Rightarrow> size_t" where
  "Size s = curr_size s"

text \<open>
  \<open>Evict\<close>: the first loop walks \<open>new_frame_\<close> from its back, the second \<open>cache_frame_\<close> from
  its front; each stops at the first frame whose \<open>evictable_\<close> entry is set.
  \<open>new_frame_.remove(frame)\<close> removes every node equal to \<open>frame\<close>; \<open>cache_frame_.erase(it)\<close>
  removes the node found.  The result \<open>None\<close> is the return value \<open>false\<close>.
\<close>

definition Evict :: "LRUKReplacer \<Rightarrow> frame_id_t option \<times> LRUKReplacer" where
  "Evict s =
     (if Size s = 0 then (None, s)
      else case find (evictable s) (rev (new_frame s)) of
        Some frame \<Rightarrow>
          (Some frame,
           s\<lparr>recorded_cnt := (recorded_cnt s)(frame := 0),
             new_frame := removeAll frame (new_frame s),
             curr_size := curr_size s - 1,
             time_frame := (time_frame s)(frame := [])\<rparr>)
      | None \<Rightarrow>
          (case find (\<lambda>e. evictable s (fst e)) (cache_frame s) of
             Some e \<Rightarrow>
               (Some (fst e),
                s\<lparr>recorded_cnt := (recorded_cnt s)(fst e := 0),
                  cache_frame := remove1 e (cache_frame s),
                  curr_size := curr_size s - 1,
                  time_frame := (time_frame s)(fst e := [])\<rparr>)
           | None \<Rightarrow> (None, s)))"

text \<open>
  \<open>CmpTimestamp\<close> and the insertion at \<open>std::upper_bound\<close>: the new pair goes before the
  first pair that compares greater, after every pair that does not.
\<close>

definition CmpTimestamp :: "frame_id_t \<times> size_t \<Rightarrow> frame_id_t \<times> size_t \<Rightarrow> bool" where
  "CmpTimestamp f1 f2 = (snd f1 < snd f2)"

definition insert_upper_bound ::
  "frame_id_t \<times> size_t \<Rightarrow> (frame_id_t \<times> size_t) list \<Rightarrow> (frame_id_t \<times> size_t) list" where
  "insert_upper_bound new_cache cache =
     takeWhile (\<lambda>e. \<not> CmpTimestamp new_cache e) cache @ new_cache #
     dropWhile (\<lambda>e. \<not> CmpTimestamp new_cache e) cache"

text \<open>Erasing the node of a frame from \<open>cache_frame_\<close> through \<open>cache_locate_\<close>.\<close>

fun erase_frame :: "frame_id_t \<Rightarrow> (frame_id_t \<times> size_t) list \<Rightarrow> (frame_id_t \<times> size_t) list" where
  "erase_frame f [] = []"
| "erase_frame f (e # es) = (if fst e = f then es else e # erase_frame f es)"

text \<open>
  \<open>RecordAccess\<close>.  The comparison \<open>frame_id > static_cast<frame_id_t>(replacer_size_)\<close> is
  made on signed integers (the replacer sizes in use are far below \<open>2^31\<close>).  For a frame
  seen for the first time with \<open>curr_size_ == max_size_\<close> the function calls \<open>Evict\<close> while it
  holds \<open>latch_\<close>, and \<open>Evict\<close> locks the same non-recursive \<open>std::mutex\<close> again: the call does
  not return (\<open>SelfDeadlock\<close>).  \<open>front()\<close> of an empty list and an erase through an
  iterator that was never stored are \<open>UndefinedBehaviour\<close>.
\<close>

definition move_to_cache :: "frame_id_t \<Rightarrow> LRUKReplacer \<Rightarrow> replacer_error + LRUKReplacer" where
  "move_to_cache frame_id s =
     (case time_frame s frame_id of
        [] \<Rightarrow> Inl UndefinedBehaviour
      | kth_time # later \<Rightarrow>
          Inr (s\<lparr>cache_frame := insert_upper_bound (frame_id, kth_time) (cache_frame s)\<rparr>))"

definition RecordAccess :: "frame_id_t \<Rightarrow> LRUKReplacer \<Rightarrow> replacer_error + LRUKReplacer" where
  "RecordAccess frame_id s =
     (if frame_id > sint (ucast (replacer_size s) :: 32 word) then Inl InvalidFrame
      else
        let cnt = recorded_cnt s frame_id + 1;
            ts = current_timestamp s + 1;
            s1 = s\<lparr>current_timestamp := ts,
                   recorded_cnt := (recorded_cnt s)(frame_id := cnt),
                   time_frame := (time_frame s)(frame_id := time_frame s frame_id @ [ts])\<rparr>
        in if cnt = 1 \<and> curr_size s1 = max_size s1 then Inl SelfDeadlock
           else
             let s2 = (if cnt = 1
                       then s1\<lparr>evictable := (evictable s1)(frame_id := True),
                               curr_size := curr_size s1 + 1,
                               new_frame := frame_id # new_frame s1\<rparr>
                       else s1)
             in if cnt = k s2 then
                  (if frame_id \<in> set (new_frame s2)
                   then move_to_cache frame_id (s2\<lparr>new_frame := remove1 frame_id (new_frame s2)\<rparr>)
                   else Inl UndefinedBehaviour)
                else if cnt > k s2 then
                  (if frame_id \<in> fst ` set (cache_frame s2)
                   then move_to_cache frame_id
                          (s2\<lparr>time_frame := (time_frame s2)(frame_id := tl (time_frame s2 frame_id)),
                              cache_frame := erase_frame frame_id (cache_frame s2)\<rparr>)
                   else Inl UndefinedBehaviour)
                else Inr s2)"

text \<open>\<open>SetEvictable\<close>: a frame without recorded accesses is ignored.\<close>

definition SetEvictable :: "frame_id_t \<Rightarrow> bool \<Rightarrow> LRUKReplacer \<Rightarrow> LRUKReplacer" where
  "SetEvictable frame_id set_evictable s =
     (if recorded_cnt s frame_id = 0 then s
      else
        let status = evictable s frame_id;
            s1 = s\<lparr>evictable := (evictable s)(frame_id := set_evictable)\<rparr>;
            s2 = (if status \<and> \<not> set_evictable
                  then s1\<lparr>max_size := max_size s1 - 1, curr_size := curr_size s1 - 1\<rparr> else s1)
        in if \<not> status \<and> set_evictable
           then s2\<lparr>max_size := max_size s2 + 1, curr_size := curr_size s2 + 1\<rparr> else s2)"

text \<open>\<open>Remove\<close>: both branches erase the frame's node, reset its count and clear its history.\<close>

definition Remove :: "frame_id_t \<Rightarrow> LRUKReplacer \<Rightarrow> replacer_error + LRUKReplacer" where
  "Remove frame_id s =
     (if frame_id > sint (ucast (replacer_size s) :: 32 word) then Inl InvalidFrame
      else
        let cnt = recorded_cnt s frame_id in
        if cnt = 0 then Inr s
        else if \<not> evictable s frame_id then Inl NonEvictable
        else if cnt < k s then
          (if frame_id \<in> set (new_frame s)
           then Inr (s\<lparr>new_frame := remove1 frame_id (new_frame s),
                       recorded_cnt := (recorded_cnt s)(frame_id := 0),
                       time_frame := (time_frame s)(frame_id := []),
                       curr_size := curr_size s - 1\<rparr>)
           else Inl UndefinedBehaviour)
        else
          (if frame_id \<in> fst ` set (cache_frame s)
           then Inr (s\<lparr>cache_frame := erase_frame frame_id (cache_frame s),
                       recorded_cnt := (recorded_cnt s)(frame_id := 0),
                       time_frame := (time_frame s)(frame_id := []),
                       curr_size := curr_size s - 1\<rparr>)
           else Inl UndefinedBehaviour))"

text \<open>
  The notions of the replacer's documentation.  A frame is tracked when it has recorded
  accesses; the candidates for eviction are the tracked frames marked evictable.  The
  backward k-distance of a frame is the current timestamp minus the timestamp of its k-th
  most recent access, and \<open>\<infinity>\<close> when it has fewer than \<open>k\<close> recorded accesses.
\<close>

definition candidates :: "LRUKReplacer \<Rightarrow> frame_id_t set" where
  "candidates s = {f. recorded_cnt s f \<noteq> 0 \<and> evictable s f}"

definition kth_recent :: "LRUKReplacer \<Rightarrow> frame_id_t \<Rightarrow> size_t" where
  "kth_recent s f = time_frame s f ! (length (time_frame s f) - unat (k s))"

definition backward_k_distance :: "LRUKReplacer \<Rightarrow> frame_id_t \<Rightarrow> enat" where
  "backward_k_distance s f =
     (if recorded_cnt s f < k s then \<infinity>
      else enat (unat (current_timestamp s - kth_recent s f)))"

definition first_access :: "LRUKReplacer \<Rightarrow> frame_id_t \<Rightarrow> size_t" where
  "first_access s f = hd (time_frame s f)"

text \<open>
  The representation invariant of the replacer's fields:
  the two lists hold each frame at most once and share no frame;
  \<open>new_frame_\<close> holds the tracked frames with fewer than \<open>k\<close> accesses, newest first access at
  the front; \<open>cache_frame_\<close> holds the frames with at least \<open>k\<close> accesses, each with the head
  of its history, in ascending order of that timestamp; a history holds the last
  \<open>min cnt k\<close> timestamps, none later than the current timestamp; \<open>curr_size_\<close> counts the
  candidates; and there are no more tracked frames than accesses recorded so far.
\<close>

definition lists_inv :: "LRUKReplacer \<Rightarrow> bool" where
  "lists_inv s \<longleftrightarrow>
     distinct (new_frame s) \<and> distinct (map fst (cache_frame s))
     \<and> (\<forall>f. f \<in> set (new_frame s) \<longleftrightarrow> recorded_cnt s f \<noteq> 0 \<and> recorded_cnt s f < k s)
     \<and> (\<forall>f. f \<in> fst ` set (cache_frame s) \<longleftrightarrow> recorded_cnt s f \<noteq> 0 \<and> k s \<le> recorded_cnt s f)"

definition history_inv :: "LRUKReplacer \<Rightarrow> bool" where
  "history_inv s \<longleftrightarrow>
     k s \<noteq> 0
     \<and> (\<forall>f. length (time_frame s f) = unat (min (recorded_cnt s f) (k s)))
     \<and> (\<forall>f. \<forall>t \<in> set (time_frame s f). t \<le> current_timestamp s)
     \<and> (\<forall>f. recorded_cnt s f \<le> current_timestamp s)"

definition order_inv :: "LRUKReplacer \<Rightarrow> bool" where
  "order_inv s \<longleftrightarrow>
     (\<forall>e \<in> set (cache_frame s). snd e = first_access s (fst e))
     \<and> sorted (map snd (cache_frame s))
     \<and> sorted (map (first_access s) (rev (new_frame s)))"

definition size_inv :: "LRUKReplacer \<Rightarrow> bool" where
  "size_inv s \<longleftrightarrow> unat (curr_size s) = card (candidates s)"

definition tracked_inv :: "LRUKReplacer \<Rightarrow> bool" where
  "tracked_inv s \<longleftrightarrow>
     length (new_frame s) + length (cache_frame s) \<le> unat (current_timestamp s)"

definition replacer_inv :: "LRUKReplacer \<Rightarrow> bool" where
  "replacer_inv s \<longleftrightarrow>
     lists_inv s \<and> history_inv s \<and> order_inv s \<and> size_inv s \<and> tracked_inv s"

text \<open>
  The state of the replacer with \<open>k = 2\<close> after frame 0, frame 1 and frame 0 again have been
  accessed, in this order.
\<close>

definition scenario3 :: LRUKReplacer where
  "scenario3 =
     \<lparr>current_timestamp = 3, curr_size = 2, max_size = 7, replacer_size = 7, k = 2,
      time_frame = (\<lambda>f. [])(0 := [1, 3], 1 := [2]),
      recorded_cnt = (\<lambda>f. 0)(0 := 2, 1 := 1),
      evictable = (\<lambda>f. False)(0 := True, 1 := True),
      new_frame = [1], cache_frame = [(0, 1)]\<rparr>"

text \<open>
  The effect of the operations on a state that satisfies the invariant, written on the
  fields.  \<open>untrack\<close> is what \<open>Evict\<close> and \<open>Remove\<close> do to the frame they release: its count
  is reset, its history cleared, its node taken out of the list that holds it, and
  \<open>curr_size_\<close> decremented.  \<open>accessed\<close> is what \<open>RecordAccess\<close> does when it returns: the
  timestamp and the frame's count are incremented and the timestamp is appended to the
  frame's history, which loses its head once the count exceeds \<open>k\<close>; a frame without
  recorded accesses becomes evictable and is counted in \<open>curr_size_\<close>; the frame is at the
  front of \<open>new_frame_\<close> while its count is below \<open>k\<close>, and from then on in \<open>cache_frame_\<close>,
  at the upper bound of the head of its history.
\<close>

definition untrack :: "frame_id_t \<Rightarrow> LRUKReplacer \<Rightarrow> LRUKReplacer" where
  "untrack f s =
     s\<lparr>recorded_cnt := (recorded_cnt s)(f := 0),
       new_frame := removeAll f (new_frame s),
       cache_frame := filter (\<lambda>e. fst e \<noteq> f) (cache_frame s),
       curr_size := curr_size s - 1,
       time_frame := (time_frame s)(f := [])\<rparr>"

definition accessed :: "frame_id_t \<Rightarrow> LRUKReplacer \<Rightarrow> LRUKReplacer" where
  "accessed f s =
     (let c = recorded_cnt s f; cnt = c + 1; ts = current_timestamp s + 1;
          h = (if k s < cnt then tl (time_frame s f @ [ts]) else time_frame s f @ [ts])
      in s\<lparr>current_timestamp := ts,
            recorded_cnt := (recorded_cnt s)(f := cnt),
            time_frame := (time_frame s)(f := h),
            evictable := (if c = 0 then (evictable s)(f := True) else evictable s),
            curr_size := (if c = 0 then curr_size s + 1 else curr_size s),
            new_frame := (if cnt < k s then (if c = 0 then f # new_frame s else new_frame s)
                          else removeAll f (new_frame s)),
            cache_frame := (if cnt < k s then cache_frame s
                            else insert_upper_bound (f, hd h)
                                   (filter (\<lambda>e. fst e \<noteq> f) (cache_frame s)))\<rparr>)"

text \<open>
  A client of the replacer calls its four operations one after the other; a call that throws
  or does not return ends the sequence with that error.
\<close>

datatype replacer_op =
  DoRecordAccess frame_id_t
  | DoSetEvictable frame_id_t bool
  | DoEvict
  | DoRemove frame_id_t

fun replacer_step :: "replacer_op \<Rightarrow> LRUKReplacer \<Rightarrow> replacer_error + LRUKReplacer" where
  "replacer_step (DoRecordAccess f) s = RecordAccess f s"
| "replacer_step (DoSetEvictable f b) s = Inr (SetEvictable f b s)"
| "replacer_step DoEvict s = Inr (snd (Evict s))"
| "replacer_step (DoRemove f) s = Remove f s"

fun replacer_run :: "replacer_op list \<Rightarrow> LRUKReplacer \<Rightarrow> replacer_error + LRUKReplacer" where
  "replacer_run [] s = Inr s"
| "replacer_run (c # cs) s = (case replacer_step c s of Inl e \<Rightarrow> Inl e | Inr s' \<Rightarrow> replacer_run cs s')"

section \<open>Buffer pool manager: UnpinPage (buffer/buffer_pool_manager.cpp)\<close>

text \<open>
  A \<open>Page\<close> is its data with the frame metadata; \<open>page_id_t\<close> is a signed 32-bit integer on
  which \<open>UnpinPage\<close> does no arithmetic, and \<open>pin_count_\<close> is an \<open>int\<close>.
\<close>

type_synonym page_id_t = int

record Page =
  data :: "8 word list"
  page_id :: page_id_t
  pin_count :: int
  is_dirty :: bool

text \<open>
  Modelled from the spec: the constant \<open>INVALID_PAGE_ID\<close> of \<open>common/config.h\<close>, a file that
  is not among the sources; the spec reserves an \<open>INVALID\<close> sentinel among the 32-bit page
  identifiers, and BusTub's value for it is \<open>-1\<close>.
\<close>

definition INVALID_PAGE_ID :: page_id_t where
  "INVALID_PAGE_ID = - 1"

text \<open>
  The fields of the pool that \<open>UnpinPage\<close> reads or writes, and those beside them: the
  frame array \<open>pages_\<close>, the page table, the free list, the replacer and the page-id counter.
\<close>

record BufferPoolManager =
  pool_size :: nat
  pages :: "Page list"
  page_table :: "page_id_t \<rightharpoonup> frame_id_t"
  free_list :: "frame_id_t list"
  replacer :: LRUKReplacer
  next_page_id :: page_id_t

text \<open>
  \<open>UnpinPage\<close>.  \<open>pages_ + frame_id\<close> for a frame identifier outside the array is undefined
  behaviour: the result is \<open>None\<close>.  Otherwise the result is the returned Boolean and the
  pool after the call.  The dirty flag is written before the pin count is inspected.
\<close>

definition UnpinPage ::
  "page_id_t \<Rightarrow> bool \<Rightarrow> BufferPoolManager \<Rightarrow> (bool \<times> BufferPoolManager) option" where
  "UnpinPage pid dirty bpm =
     (if pid = INVALID_PAGE_ID then Some (False, bpm)
      else case page_table bpm pid of
        None \<Rightarrow> Some (False, bpm)
      | Some frame_id \<Rightarrow>
          if frame_id < 0 \<or> nat frame_id \<ge> length (pages bpm) then None
          else
            let page = pages bpm ! nat frame_id;
                page1 = page\<lparr>is_dirty := dirty \<or> is_dirty page\<rparr>;
                bpm1 = bpm\<lparr>pages := (pages bpm)[nat frame_id := page1]\<rparr>
            in if pin_count page1 = 0 then Some (False, bpm1)
               else
                 let page2 = page1\<lparr>pin_count := pin_count page1 - 1\<rparr>;
                     bpm2 = bpm1\<lparr>pages := (pages bpm1)[nat frame_id := page2]\<rparr>
                 in if pin_count page2 = 0
                    then Some (True, bpm2\<lparr>replacer := SetEvictable frame_id True (replacer bpm2)\<rparr>)
                    else Some (True, bpm2))"

text \<open>A pool of one frame that holds page 5, unpinned and clean.\<close>

definition one_frame_pool :: BufferPoolManager where
  "one_frame_pool =
     \<lparr>pool_size = 1,
      pages = [\<lparr>data = [], page_id = 5, pin_count = 0, is_dirty = False\<rparr>],
      page_table = [5 \<mapsto> 0],
      free_list = [],
      replacer = SetEvictable 0 True (projr (RecordAccess 0 (new_LRUKReplacer 1 2))),
      next_page_id = 6\<rparr>"

text \<open>The same pool with page 5 pinned twice, and pinned once.\<close>

definition pinned_pool :: "int \<Rightarrow> BufferPoolManager" where
  "pinned_pool n =
     \<lparr>pool_size = 1,
      pages = [\<lparr>data = [], page_id = 5, pin_count = n, is_dirty = False\<rparr>],
      page_table = [5 \<mapsto> 0],
      free_list = [],
      replacer = SetEvictable 0 False (projr (RecordAccess 0 (new_LRUKReplacer 1 2))),
      next_page_id = 6\<rparr>"

section \<open>Page guards: BasicPageGuard (storage/page/page_guard.cpp)\<close>

text \<open>
  A \<open>BasicPageGuard\<close> holds the pointer \<open>bpm_\<close> to the pool, the pointer \<open>page_\<close> to a \<open>Page\<close> of
  the frame array (the index of the frame) and \<open>is_dirty_\<close>; a null pointer is \<open>None\<close>.  The
  world of the guards is the pool together with the list of the \<open>UnpinPage\<close> calls made
  through guards so far (frame, page identifier and dirty argument of each).
\<close>

record BasicPageGuard =
  guard_bpm :: "unit option"
  guard_page :: "nat option"
  guard_is_dirty :: bool

record guard_world =
  pool :: BufferPoolManager
  unpin_calls :: "(nat \<times> page_id_t \<times> bool) list"

text \<open>
  \<open>Drop\<close>: \<open>page_->GetPageId()\<close> reads the \<open>Page\<close> the guard points at (\<open>None\<close> when the
  pointer is outside the frame array, or when \<open>UnpinPage\<close> is undefined); the Boolean that
  \<open>UnpinPage\<close> returns is discarded.
\<close>

definition guard_Drop ::
  "BasicPageGuard \<Rightarrow> guard_world \<Rightarrow> (BasicPageGuard \<times> guard_world) option" where
  "guard_Drop g w =
     (case (guard_bpm g, guard_page g) of
        (Some b, Some f) \<Rightarrow>
          if f < length (pages (pool w)) then
            (case UnpinPage (page_id (pages (pool w) ! f)) (guard_is_dirty g) (pool w) of
               None \<Rightarrow> None
             | Some (res, pool') \<Rightarrow>
                 Some (g\<lparr>guard_bpm := None, guard_page := None\<rparr>,
                       w\<lparr>pool := pool',
                         unpin_calls := unpin_calls w
                           @ [(f, page_id (pages (pool w) ! f), guard_is_dirty g)]\<rparr>))
          else None
      | _ \<Rightarrow> Some (g\<lparr>guard_bpm := None, guard_page := None\<rparr>, w))"

text \<open>The move constructor: the new guard, and the guard moved from.\<close>

definition guard_move :: "BasicPageGuard \<Rightarrow> BasicPageGuard \<times> BasicPageGuard" where
  "guard_move that =
     (\<lparr>guard_bpm = guard_bpm that, guard_page = guard_page that,
       guard_is_dirty = guard_is_dirty that\<rparr>,
      that\<lparr>guard_page := None, guard_bpm := None\<rparr>)"

text \<open>
  Guard objects live in a list.  The operations on them: construct a new guard from guard
  \<open>j\<close> by the move constructor, move-assign guard \<open>j\<close> to guard \<open>i\<close> (\<open>i = j\<close> is a
  self-assignment), call \<open>Drop\<close> on guard \<open>i\<close>, and run the destructor of guard \<open>i\<close>.
\<close>

datatype guard_op = MoveConstruct nat | MoveAssign nat nat | DropGuard nat | Destroy nat

fun guard_step ::
  "guard_op \<Rightarrow> BasicPageGuard list \<times> guard_world \<Rightarrow> (BasicPageGuard list \<times> guard_world) option" where
  "guard_step (MoveConstruct j) (gs, w) =
     (if j < length gs
      then Some (gs[j := snd (guard_move (gs ! j))] @ [fst (guard_move (gs ! j))], w)
      else None)"
| "guard_step (MoveAssign i j) (gs, w) =
     (if i < length gs \<and> j < length gs then
        (case guard_Drop (gs ! i) w of
           None \<Rightarrow> None
         | Some (g', w') \<Rightarrow>
             let gs1 = gs[i := g'];
                 gs2 = gs1[i := fst (guard_move (gs1 ! j))];
                 gs3 = gs2[j := (gs2 ! j)\<lparr>guard_page := None, guard_bpm := None\<rparr>]
             in Some (gs3, w'))
      else None)"
| "guard_step (DropGuard i) (gs, w) =
     (if i < length gs then
        (case guard_Drop (gs ! i) w of
           None \<Rightarrow> None
         | Some (g', w') \<Rightarrow> Some (gs[i := g'], w'))
      else None)"
| "guard_step (Destroy i) (gs, w) =
     (if i < length gs then
        (case guard_Drop (gs ! i) w of
           None \<Rightarrow> None
         | Some (g', w') \<Rightarrow> Some (gs[i := g'], w'))
      else None)"

fun guard_run ::
  "guard_op list \<Rightarrow> BasicPageGuard list \<times> guard_world \<Rightarrow> (BasicPageGuard list \<times> guard_world) option" where
  "guard_run [] st = Some st"
| "guard_run (op # ops) st =
     (case guard_step op st of None \<Rightarrow> None | Some st' \<Rightarrow> guard_run ops st')"

text \<open>A guard holds a pin when both of its pointers are set.\<close>

definition holds_pin :: "BasicPageGuard \<Rightarrow> bool" where
  "holds_pin g \<longleftrightarrow> guard_bpm g \<noteq> None \<and> guard_page g \<noteq> None"

text \<open>
  The frames pinned through the guards of a list, and the frames released through guards so
  far, each with its multiplicity.
\<close>

definition held_frames :: "BasicPageGuard list \<Rightarrow> nat multiset" where
  "held_frames gs = image_mset (\<lambda>g. the (guard_page g)) (filter_mset holds_pin (mset gs))"

definition released_frames :: "guard_world \<Rightarrow> nat multiset" where
  "released_frames w = mset (map fst (unpin_calls w))"

text \<open>A guard that pins frame 0, the null guard, and a world in which page 5 is pinned once.\<close>

definition pinning_guard :: BasicPageGuard where
  "pinning_guard = \<lparr>guard_bpm = Some (), guard_page = Some 0, guard_is_dirty = False\<rparr>"

definition null_guard :: BasicPageGuard where
  "null_guard = \<lparr>guard_bpm = None, guard_page = None, guard_is_dirty = False\<rparr>"

definition pinned_world :: guard_world where
  "pinned_world = \<lparr>pool = pinned_pool 1, unpin_calls = []\<rparr>"

section \<open>Extendible hash index (container/disk/hash/disk_extendible_hash_table.cpp and its pages)\<close>

text \<open>
  Directory indices, depths and sizes are \<open>uint32_t\<close> values that stay far below \<open>2^31\<close>
  (a depth is at most 9, an index below 1024); they are natural numbers here.  A hash is a
  32-bit word.  The two arrays of a directory page, and the array of a header page, are
  functions from the index, and an access at an index outside the declared array is
  undefined behaviour (\<open>None\<close>).
\<close>

text \<open>
  Modelled from the spec: the array sizes of \<open>extendible_htable_directory_page.h\<close>, a file
  that is not among the sources.  The spec gives both arrays of the directory
  \<open>2^max_depth_d\<close> entries; BusTub declares them with \<open>HTABLE_DIRECTORY_MAX_DEPTH = 9\<close>,
  as the header page's \<open>HTABLE_HEADER_MAX_DEPTH = 9\<close> of \<open>extendible_htable_header_page.h\<close>.
\<close>

definition HTABLE_HEADER_ARRAY_SIZE :: nat where
  "HTABLE_HEADER_ARRAY_SIZE = 2 ^ 9"

definition HTABLE_DIRECTORY_ARRAY_SIZE :: nat where
  "HTABLE_DIRECTORY_ARRAY_SIZE = 2 ^ 9"

subsection \<open>Header page (extendible_htable_header_page.cpp)\<close>

record header_page =
  directory_page_ids :: "nat \<Rightarrow> page_id_t"
  h_max_depth :: nat

definition header_MaxSize :: "header_page \<Rightarrow> nat" where
  "header_MaxSize h = 2 ^ h_max_depth h"

text \<open>\<open>Init\<close> on the zeroed memory of a new page.\<close>

definition header_Init :: "nat \<Rightarrow> header_page option" where
  "header_Init max_depth' =
     (if 2 ^ max_depth' \<le> HTABLE_HEADER_ARRAY_SIZE
      then Some \<lparr>directory_page_ids = (\<lambda>i. if i < 2 ^ max_depth' then INVALID_PAGE_ID else 0),
                 h_max_depth = max_depth'\<rparr>
      else None)"

definition HashToDirectoryIndex :: "header_page \<Rightarrow> 32 word \<Rightarrow> nat" where
  "HashToDirectoryIndex h hash =
     (if h_max_depth h = 0 then 0 else unat (drop_bit (32 - h_max_depth h) hash))"

definition GetDirectoryPageId :: "header_page \<Rightarrow> nat \<Rightarrow> page_id_t" where
  "GetDirectoryPageId h directory_idx =
     (if directory_idx \<ge> header_MaxSize h then INVALID_PAGE_ID else directory_page_ids h directory_idx)"

definition SetDirectoryPageId :: "nat \<Rightarrow> page_id_t \<Rightarrow> header_page \<Rightarrow> header_page" where
  "SetDirectoryPageId directory_idx directory_page_id h =
     (if directory_idx \<ge> header_MaxSize h then h
      else h\<lparr>directory_page_ids := (directory_page_ids h)(directory_idx := directory_page_id)\<rparr>)"

subsection \<open>Directory page (extendible_htable_directory_page.cpp)\<close>

record directory_page =
  d_max_depth :: nat
  global_depth :: nat
  local_depths :: "nat \<Rightarrow> nat"
  bucket_page_ids :: "nat \<Rightarrow> page_id_t"

definition in_directory_array :: "nat \<Rightarrow> bool" where
  "in_directory_array idx \<longleftrightarrow> idx < HTABLE_DIRECTORY_ARRAY_SIZE"

definition directory_Init :: "nat \<Rightarrow> directory_page option" where
  "directory_Init max_depth' =
     (if 2 ^ max_depth' \<le> HTABLE_DIRECTORY_ARRAY_SIZE
      then Some \<lparr>d_max_depth = max_depth', global_depth = 0,
                 local_depths = (\<lambda>i. 0),
                 bucket_page_ids = (\<lambda>i. if i < 2 ^ max_depth' then INVALID_PAGE_ID else 0)\<rparr>
      else None)"

definition GetGlobalDepthMask :: "directory_page \<Rightarrow> 32 word" where
  "GetGlobalDepthMask d = push_bit (global_depth d) 1 - 1"

definition HashToBucketIndex :: "directory_page \<Rightarrow> 32 word \<Rightarrow> nat" where
  "HashToBucketIndex d hash = unat (hash AND GetGlobalDepthMask d)"

definition GetBucketPageId :: "directory_page \<Rightarrow> nat \<Rightarrow> page_id_t option" where
  "GetBucketPageId d bucket_idx =
     (if in_directory_array bucket_idx then Some (bucket_page_ids d bucket_idx) else None)"

definition SetBucketPageId :: "nat \<Rightarrow> page_id_t \<Rightarrow> directory_page \<Rightarrow> directory_page option" where
  "SetBucketPageId bucket_idx bucket_page_id d =
     (if in_directory_array bucket_idx
      then Some (d\<lparr>bucket_page_ids := (bucket_page_ids d)(bucket_idx := bucket_page_id)\<rparr>)
      else None)"

text \<open>\<open>GetSplitImageIndex\<close> shifts by \<open>global_depth_ - 1\<close>, which is undefined at global depth 0.\<close>

definition GetSplitImageIndex :: "directory_page \<Rightarrow> nat \<Rightarrow> nat option" where
  "GetSplitImageIndex d bucket_idx =
     (if global_depth d = 0 then None else Some (bucket_idx + 2 ^ (global_depth d - 1)))"

definition GetLocalDepth :: "directory_page \<Rightarrow> nat \<Rightarrow> nat option" where
  "GetLocalDepth d bucket_idx =
     (if in_directory_array bucket_idx then Some (local_depths d bucket_idx) else None)"

definition SetLocalDepth :: "nat \<Rightarrow> nat \<Rightarrow> directory_page \<Rightarrow> directory_page option" where
  "SetLocalDepth bucket_idx local_depth d =
     (if in_directory_array bucket_idx
      then Some (d\<lparr>local_depths := (local_depths d)(bucket_idx := local_depth)\<rparr>)
      else None)"

definition IncrLocalDepth :: "nat \<Rightarrow> directory_page \<Rightarrow> directory_page option" where
  "IncrLocalDepth bucket_idx d =
     (if in_directory_array bucket_idx
      then Some (if local_depths d bucket_idx < global_depth d
                 then d\<lparr>local_depths := (local_depths d)(bucket_idx := local_depths d bucket_idx + 1)\<rparr>
                 else d)
      else None)"

text \<open>
  The copying loops of \<open>IncrGlobalDepth\<close> and of \<open>Insert\<close> (lines 209-214): slot \<open>i\<close> of the
  lower half is copied to slot \<open>h + i\<close>, for \<open>i\<close> from 0 up.
\<close>

fun copy_slots :: "nat \<Rightarrow> nat \<Rightarrow> nat \<Rightarrow> directory_page \<Rightarrow> directory_page option" where
  "copy_slots h i 0 d = Some d"
| "copy_slots h i (Suc todo) d =
     (if in_directory_array (h + i)
      then copy_slots h (Suc i) todo
             (d\<lparr>bucket_page_ids := (bucket_page_ids d)(h + i := bucket_page_ids d i),
                local_depths := (local_depths d)(h + i := local_depths d i)\<rparr>)
      else None)"

definition IncrGlobalDepth :: "directory_page \<Rightarrow> directory_page option" where
  "IncrGlobalDepth d =
     (if global_depth d \<ge> d_max_depth d then Some d
      else map_option (\<lambda>d'. d'\<lparr>global_depth := global_depth d + 1\<rparr>)
             (copy_slots (2 ^ global_depth d) 0 (2 ^ global_depth d) d))"

subsection \<open>Bucket page (extendible_htable_bucket_page.cpp)\<close>

text \<open>
  The entries \<open>array_[0 .. size_ - 1]\<close> are the list \<open>array\<close>, so that \<open>size_\<close> is its length;
  \<open>max_size_\<close> is taken to be at most the number of pairs that fit in the page.  The key
  comparator returns 0 for equal keys.
\<close>

record ('k, 'v) bucket_page =
  array :: "('k \<times> 'v) list"
  b_max_size :: nat

definition bucket_Init :: "nat \<Rightarrow> ('k, 'v) bucket_page" where
  "bucket_Init max_size' = \<lparr>array = [], b_max_size = max_size'\<rparr>"

definition IsFull :: "('k, 'v) bucket_page \<Rightarrow> bool" where
  "IsFull b \<longleftrightarrow> length (array b) = b_max_size b"

definition Lookup :: "('k \<Rightarrow> 'k \<Rightarrow> int) \<Rightarrow> ('k, 'v) bucket_page \<Rightarrow> 'k \<Rightarrow> 'v option" where
  "Lookup cmp b key = map_option snd (find (\<lambda>e. cmp (fst e) key = 0) (array b))"

definition bucket_Insert ::
  "('k \<Rightarrow> 'k \<Rightarrow> int) \<Rightarrow> 'k \<Rightarrow> 'v \<Rightarrow> ('k, 'v) bucket_page \<Rightarrow> bool \<times> ('k, 'v) bucket_page" where
  "bucket_Insert cmp key value b =
     (if IsFull b then (False, b)
      else if find (\<lambda>e. cmp (fst e) key = 0) (array b) \<noteq> None then (False, b)
      else (True, b\<lparr>array := array b @ [(key, value)]\<rparr>))"

definition bucket_Clear :: "('k, 'v) bucket_page \<Rightarrow> ('k, 'v) bucket_page" where
  "bucket_Clear b = b\<lparr>array := []\<rparr>"

subsection \<open>The table (disk_extendible_hash_table.cpp)\<close>

text \<open>
  The index reaches its pages through the buffer pool.  Here the pool and the disk behind
  it are the map \<open>store\<close> from page identifiers to page contents, and \<open>NewPage\<close> hands out
  the identifiers \<open>ht_next_page_id\<close>, \<open>ht_next_page_id + 1\<close>, ...: the pool is taken to be
  large enough for \<open>NewPage\<close> and \<open>FetchPage\<close> never to fail for want of a frame.  A page
  is written in place through its guard, so every step below writes its result to the
  store.  Reading a page as a page of another kind is \<open>None\<close>.  The hash function and the
  comparator are arguments of the constructor.
\<close>

datatype ('k, 'v) page_content =
    HeaderPage header_page
  | DirectoryPage directory_page
  | BucketPage "('k, 'v) bucket_page"

record ('k, 'v) DiskExtendibleHashTable =
  store :: "page_id_t \<rightharpoonup> ('k, 'v) page_content"
  ht_next_page_id :: page_id_t
  header_page_id :: page_id_t
  header_max_depth :: nat
  directory_max_depth :: nat
  bucket_max_size :: nat
  hash_fn :: "'k \<Rightarrow> 32 word"
  cmp :: "'k \<Rightarrow> 'k \<Rightarrow> int"

definition Hash :: "('k, 'v) DiskExtendibleHashTable \<Rightarrow> 'k \<Rightarrow> 32 word" where
  "Hash tbl key = hash_fn tbl key"

definition fetch_header :: "('k, 'v) DiskExtendibleHashTable \<Rightarrow> page_id_t \<Rightarrow> header_page option" where
  "fetch_header tbl pid = (case store tbl pid of Some (HeaderPage h) \<Rightarrow> Some h | _ \<Rightarrow> None)"

definition fetch_directory ::
  "('k, 'v) DiskExtendibleHashTable \<Rightarrow> page_id_t \<Rightarrow> directory_page option" where
  "fetch_directory tbl pid = (case store tbl pid of Some (DirectoryPage d) \<Rightarrow> Some d | _ \<Rightarrow> None)"

definition fetch_bucket ::
  "('k, 'v) DiskExtendibleHashTable \<Rightarrow> page_id_t \<Rightarrow> ('k, 'v) bucket_page option" where
  "fetch_bucket tbl pid = (case store tbl pid of Some (BucketPage b) \<Rightarrow> Some b | _ \<Rightarrow> None)"

definition write_page ::
  "page_id_t \<Rightarrow> ('k, 'v) page_content \<Rightarrow> ('k, 'v) DiskExtendibleHashTable
     \<Rightarrow> ('k, 'v) DiskExtendibleHashTable" where
  "write_page pid content tbl = tbl\<lparr>store := (store tbl)(pid \<mapsto> content)\<rparr>"

text \<open>The constructor: a new header page, initialised with \<open>header_max_depth\<close>.\<close>

definition new_DiskExtendibleHashTable ::
  "page_id_t \<Rightarrow> ('k \<Rightarrow> 'k \<Rightarrow> int) \<Rightarrow> ('k \<Rightarrow> 32 word) \<Rightarrow> nat \<Rightarrow> nat \<Rightarrow> nat
     \<Rightarrow> ('k, 'v) DiskExtendibleHashTable option" where
  "new_DiskExtendibleHashTable first_page_id cmp' hash_fn' header_max_depth' directory_max_depth'
       bucket_max_size' =
     do {
       header \<leftarrow> header_Init header_max_depth';
       Some \<lparr>store = [first_page_id \<mapsto> HeaderPage header],
             ht_next_page_id = first_page_id + 1,
             header_page_id = first_page_id,
             header_max_depth = header_max_depth',
             directory_max_depth = directory_max_depth',
             bucket_max_size = bucket_max_size',
             hash_fn = hash_fn', cmp = cmp'\<rparr>
     }"

text \<open>
  \<open>GetValue\<close>: the outer \<open>option\<close> is the undefined behaviour of the page accesses; inside,
  \<open>Some v\<close> is the return value \<open>true\<close> with \<open>v\<close> pushed to the result, \<open>None\<close> is \<open>false\<close>.
\<close>

definition GetValue :: "('k, 'v) DiskExtendibleHashTable \<Rightarrow> 'k \<Rightarrow> 'v option option" where
  "GetValue tbl key =
     do {
       header_page \<leftarrow> fetch_header tbl (header_page_id tbl);
       let hash = Hash tbl key;
           dir_index = HashToDirectoryIndex header_page hash;
           directory_page_id = GetDirectoryPageId header_page dir_index
       in if directory_page_id = INVALID_PAGE_ID then Some None
          else do {
            directory_page \<leftarrow> fetch_directory tbl directory_page_id;
            bucket_page_id \<leftarrow> GetBucketPageId directory_page (HashToBucketIndex directory_page hash);
            if bucket_page_id = INVALID_PAGE_ID then Some None
            else do {
              bucket_page \<leftarrow> fetch_bucket tbl bucket_page_id;
              Some (Lookup (cmp tbl) bucket_page key)
            }
          }
     }"

text \<open>
  The redistribution loop of \<open>SplitBucket\<close> (lines 139-148): an entry goes back to the old
  bucket or to the new one, according to the page its directory slot names, and is dropped
  when the slot names neither.
\<close>

fun redistribute ::
  "('k, 'v) DiskExtendibleHashTable \<Rightarrow> directory_page \<Rightarrow> page_id_t \<Rightarrow> page_id_t \<Rightarrow> ('k \<times> 'v) list
     \<Rightarrow> ('k, 'v) bucket_page \<times> ('k, 'v) bucket_page
     \<Rightarrow> (('k, 'v) bucket_page \<times> ('k, 'v) bucket_page) option" where
  "redistribute tbl directory bucket_page_id split_page_id [] (bucket, split_bucket) =
     Some (bucket, split_bucket)"
| "redistribute tbl directory bucket_page_id split_page_id (entry # entries) (bucket, split_bucket) =
     do {
       target_page_id \<leftarrow> GetBucketPageId directory (HashToBucketIndex directory (Hash tbl (fst entry)));
       redistribute tbl directory bucket_page_id split_page_id entries
         (if target_page_id = bucket_page_id
          then (snd (bucket_Insert (cmp tbl) (fst entry) (snd entry) bucket), split_bucket)
          else if target_page_id = split_page_id
          then (bucket, snd (bucket_Insert (cmp tbl) (fst entry) (snd entry) split_bucket))
          else (bucket, split_bucket))
     }"

text \<open>
  \<open>SplitBucket\<close>, on the directory page \<open>directory_page_id\<close> and the full bucket stored at
  \<open>full_page_id\<close> (the page the argument \<open>bucket\<close> points into).
\<close>

definition SplitBucket ::
  "('k, 'v) DiskExtendibleHashTable \<Rightarrow> page_id_t \<Rightarrow> page_id_t \<Rightarrow> nat
     \<Rightarrow> (bool \<times> ('k, 'v) DiskExtendibleHashTable) option" where
  "SplitBucket tbl directory_page_id full_page_id bucket_idx =
     (let split_page_id = ht_next_page_id tbl;
          tbl1 = write_page split_page_id (BucketPage (bucket_Init (bucket_max_size tbl)))
                  (tbl\<lparr>ht_next_page_id := ht_next_page_id tbl + 1\<rparr>)
      in if split_page_id = INVALID_PAGE_ID then Some (False, tbl1)
         else do {
           directory \<leftarrow> fetch_directory tbl1 directory_page_id;
           split_idx \<leftarrow> GetSplitImageIndex directory bucket_idx;
           local_depth \<leftarrow> GetLocalDepth directory bucket_idx;
           d1 \<leftarrow> SetBucketPageId split_idx split_page_id directory;
           d2 \<leftarrow> SetLocalDepth split_idx local_depth d1;
           let tbl2 = write_page directory_page_id (DirectoryPage d2) tbl1 in
           do {
             bucket_page_id \<leftarrow> GetBucketPageId d2 bucket_idx;
             if bucket_page_id = INVALID_PAGE_ID then Some (False, tbl2)
             else do {
               bucket \<leftarrow> fetch_bucket tbl2 full_page_id;
               (bucket', split_bucket') \<leftarrow>
                 redistribute tbl2 d2 bucket_page_id split_page_id (array bucket)
                   (bucket_Clear bucket, bucket_Init (bucket_max_size tbl));
               Some (True, write_page split_page_id (BucketPage split_bucket')
                             (write_page full_page_id (BucketPage bucket') tbl2))
             }
           }
         })"

definition InsertToNewBucket ::
  "('k, 'v) DiskExtendibleHashTable \<Rightarrow> page_id_t \<Rightarrow> nat \<Rightarrow> 'k \<Rightarrow> 'v
     \<Rightarrow> (bool \<times> ('k, 'v) DiskExtendibleHashTable) option" where
  "InsertToNewBucket tbl directory_page_id bucket_idx key value =
     (let bucket_page_id = ht_next_page_id tbl;
          tbl1 = tbl\<lparr>ht_next_page_id := ht_next_page_id tbl + 1\<rparr>
      in do {
        directory \<leftarrow> fetch_directory tbl1 directory_page_id;
        directory' \<leftarrow> SetBucketPageId bucket_idx bucket_page_id directory;
        let (ok, bucket_page) = bucket_Insert (cmp tbl) key value (bucket_Init (bucket_max_size tbl))
        in Some (ok, write_page bucket_page_id (BucketPage bucket_page)
                       (write_page directory_page_id (DirectoryPage directory') tbl1))
      })"

definition InsertToNewDirectory ::
  "('k, 'v) DiskExtendibleHashTable \<Rightarrow> nat \<Rightarrow> 32 word \<Rightarrow> 'k \<Rightarrow> 'v
     \<Rightarrow> (bool \<times> ('k, 'v) DiskExtendibleHashTable) option" where
  "InsertToNewDirectory tbl directory_idx hash key value =
     (let directory_page_id = ht_next_page_id tbl;
          tbl1 = tbl\<lparr>ht_next_page_id := ht_next_page_id tbl + 1\<rparr>
      in do {
        directory_page \<leftarrow> directory_Init (directory_max_depth tbl);
        header \<leftarrow> fetch_header tbl1 (header_page_id tbl1);
        InsertToNewBucket
          (write_page (header_page_id tbl1)
             (HeaderPage (SetDirectoryPageId directory_idx directory_page_id header))
             (write_page directory_page_id (DirectoryPage directory_page) tbl1))
          directory_page_id (HashToBucketIndex directory_page hash) key value
      })"

text \<open>
  \<open>Insert\<close> calls itself after a split.  The first argument bounds the number of nested
  calls; \<open>None\<close> is an undefined page access, or the bound reached.
\<close>

fun ht_Insert ::
  "nat \<Rightarrow> ('k, 'v) DiskExtendibleHashTable \<Rightarrow> 'k \<Rightarrow> 'v
     \<Rightarrow> (bool \<times> ('k, 'v) DiskExtendibleHashTable) option" where
  "ht_Insert 0 tbl key value = None"
| "ht_Insert (Suc fuel) tbl key value =
     do {
       values_found \<leftarrow> GetValue tbl key;
       if values_found \<noteq> None then Some (False, tbl)
       else do {
         header_page \<leftarrow> fetch_header tbl (header_page_id tbl);
         let hash_key = Hash tbl key;
             directory_index = HashToDirectoryIndex header_page hash_key;
             directory_page_id = GetDirectoryPageId header_page directory_index
         in if directory_page_id = INVALID_PAGE_ID
            then InsertToNewDirectory tbl directory_index hash_key key value
            else do {
              directory_page \<leftarrow> fetch_directory tbl directory_page_id;
              let bucket_index = HashToBucketIndex directory_page hash_key in
              do {
                bucket_page_id \<leftarrow> GetBucketPageId directory_page bucket_index;
                if bucket_page_id = INVALID_PAGE_ID
                then InsertToNewBucket tbl directory_page_id bucket_index key value
                else do {
                  bucket_page \<leftarrow> fetch_bucket tbl bucket_page_id;
                  if fst (bucket_Insert (cmp tbl) key value bucket_page)
                  then Some (True, write_page bucket_page_id
                                     (BucketPage (snd (bucket_Insert (cmp tbl) key value bucket_page))) tbl)
                  else
                    let h = 2 ^ global_depth directory_page in
                    do {
                      local_depth \<leftarrow> GetLocalDepth directory_page bucket_index;
                      if local_depth = global_depth directory_page
                         \<and> global_depth directory_page \<ge> d_max_depth directory_page
                      then Some (False, tbl)
                      else do {
                        d1 \<leftarrow> (if local_depth = global_depth directory_page
                               then do {
                                 d \<leftarrow> IncrGlobalDepth directory_page;
                                 copy_slots h 0 (2 ^ global_depth d - h) d
                               }
                               else Some directory_page);
                        d2 \<leftarrow> IncrLocalDepth bucket_index d1;
                        d3 \<leftarrow> IncrLocalDepth (bucket_index + h) d2;
                        (ok, tbl') \<leftarrow> SplitBucket (write_page directory_page_id (DirectoryPage d3) tbl)
                                       directory_page_id bucket_page_id bucket_index;
                        if \<not> ok then Some (False, tbl') else ht_Insert fuel tbl' key value
                      }
                    }
                }
              }
            }
       }
     }"

text \<open>
  The directory invariant of the hash index, slot by slot over the \<open>2^global_depth\<close> slots
  in use: the local depth is at most the global depth; two slots that agree on the low
  \<open>local_depth\<close> bits of the first name the same bucket page; the page a slot names is a
  bucket page of the store.  And no bucket page holds more entries than \<open>max_size_\<close>.
\<close>

definition depths_bounded :: "directory_page \<Rightarrow> bool" where
  "depths_bounded d = list_all (\<lambda>i. local_depths d i \<le> global_depth d) [0..<2 ^ global_depth d]"

definition slots_agree :: "directory_page \<Rightarrow> bool" where
  "slots_agree d =
     list_all (\<lambda>i. list_all (\<lambda>j.
         if i mod 2 ^ local_depths d i = j mod 2 ^ local_depths d i
         then bucket_page_ids d i = bucket_page_ids d j else True)
       [0..<2 ^ global_depth d]) [0..<2 ^ global_depth d]"

definition slots_valid :: "('k, 'v) DiskExtendibleHashTable \<Rightarrow> directory_page \<Rightarrow> bool" where
  "slots_valid tbl d =
     list_all (\<lambda>i. bucket_page_ids d i \<noteq> INVALID_PAGE_ID
                  \<and> fetch_bucket tbl (bucket_page_ids d i) \<noteq> None) [0..<2 ^ global_depth d]"

text \<open>
  A table with header depth 0, directory depth 3 and buckets of one entry, whose keys are
  32-bit words hashed by the identity; the pool's next page identifier is 0.
\<close>

definition word_cmp :: "32 word \<Rightarrow> 32 word \<Rightarrow> int" where
  "word_cmp a b = (if a < b then - 1 else if b < a then 1 else 0)"

definition small_table :: "(32 word, nat) DiskExtendibleHashTable" where
  "small_table = the (new_DiskExtendibleHashTable 0 word_cmp (\<lambda>k. k) 0 3 1)"

definition insert_all ::
  "('k \<times> 'v) list \<Rightarrow> ('k, 'v) DiskExtendibleHashTable \<Rightarrow> ('k, 'v) DiskExtendibleHashTable option" where
  "insert_all kvs tbl =
     fold (\<lambda>kv r. case r of None \<Rightarrow> None
                  | Some t \<Rightarrow> map_option snd (ht_Insert 10 t (fst kv) (snd kv))) kvs (Some tbl)"

text \<open>The slots in use of the directory stored at a page: global depth, local depths, bucket pages.\<close>

definition directory_view ::
  "('k, 'v) DiskExtendibleHashTable \<Rightarrow> page_id_t \<Rightarrow> (nat \<times> nat list \<times> page_id_t list) option" where
  "directory_view tbl pid =
     map_option (\<lambda>d. (global_depth d, map (local_depths d) [0..<2 ^ global_depth d],
                       map (bucket_page_ids d) [0..<2 ^ global_depth d]))
       (fetch_directory tbl pid)"

text \<open>
  The Booleans that a sequence of \<open>Insert\<close> calls returns, with the table after the last of
  them.
\<close>

definition insert_results ::
  "('k \<times> 'v) list \<Rightarrow> ('k, 'v) DiskExtendibleHashTable
     \<Rightarrow> (bool list \<times> ('k, 'v) DiskExtendibleHashTable) option" where
  "insert_results kvs tbl =
     fold (\<lambda>kv r. case r of None \<Rightarrow> None
                  | Some (bs, t) \<Rightarrow>
                      map_option (\<lambda>(b, t'). (bs @ [b], t')) (ht_Insert 10 t (fst kv) (snd kv)))
       kvs (Some ([], tbl))"

text \<open>
  The bucket pages of the store that hold an entry whose key compares equal to the given
  key, among the pages that \<open>NewPage\<close> has handed out.
\<close>

definition pages_holding :: "('k, 'v) DiskExtendibleHashTable \<Rightarrow> 'k \<Rightarrow> page_id_t list" where
  "pages_holding tbl key =
     filter (\<lambda>pid. case fetch_bucket tbl pid of
                     Some b \<Rightarrow> list_ex (\<lambda>e. cmp tbl (fst e) key = 0) (array b)
                   | None \<Rightarrow> False)
       (map int [0..<nat (ht_next_page_id tbl)])"

text \<open>
  The table after \<open>Insert\<close> has been called for the keys 0, 4, 5, 1 and 9, in this order,
  each with the value \<open>100 + key\<close>.
\<close>

definition lost_key_table :: "(32 word, nat) DiskExtendibleHashTable" where
  "lost_key_table =
     snd (the (insert_results [(0, 100), (4, 104), (5, 105), (1, 101), (9, 109)] small_table))"

text \<open>
  A table is well formed when the next page identifier of the pool is not negative and the
  store holds no page at or above it: \<open>NewPage\<close> hands out identifiers that are not in use.
\<close>

definition table_wf :: "('k, 'v) DiskExtendibleHashTable \<Rightarrow> bool" where
  "table_wf tbl \<longleftrightarrow>
     0 \<le> ht_next_page_id tbl \<and> (\<forall>pid \<ge> ht_next_page_id tbl. store tbl pid = None)"

text \<open>The table after the key 0 has been inserted with the value 10.\<close>

definition one_key_table :: "(32 word, nat) DiskExtendibleHashTable" where
  "one_key_table = snd (the (ht_Insert 10 small_table 0 10))"

section \<open>Copy-on-write trie (primer/trie.cpp, primer/trie.h)\<close>

text \<open>
  The values a trie is instantiated with: \<open>uint32_t\<close>, \<open>uint64_t\<close>, \<open>std::string\<close> and
  \<open>std::unique_ptr<uint32_t>\<close>; the \<open>dynamic_cast\<close> of \<open>Get<T>\<close> succeeds when the stored
  value has the type \<open>T\<close>.
\<close>

datatype trie_value = U32 "32 word" | U64 "64 word" | Str string | IntegerPtr "32 word"

datatype value_type = TU32 | TU64 | TStr | TIntegerPtr

fun type_of :: "trie_value \<Rightarrow> value_type" where
  "type_of (U32 x) = TU32"
| "type_of (U64 x) = TU64"
| "type_of (Str x) = TStr"
| "type_of (IntegerPtr x) = TIntegerPtr"

text \<open>
  A node is its map of children and, for a \<open>TrieNodeWithValue\<close>, its value
  (\<open>is_value_node_\<close> holds exactly when there is one).  The \<open>std::map\<close> of children is an
  association list read with \<open>map_of\<close>.  Nodes are immutable values here: \<open>Clone\<close> yields a
  node with the same children and value, and a trie that was handed to an operation is
  never written.
\<close>

datatype TrieNode = TrieNode (children: "(char \<times> TrieNode) list") (node_value: "trie_value option")

type_synonym Trie = "TrieNode option"

definition Clone :: "TrieNode \<Rightarrow> TrieNode" where
  "Clone n = TrieNode (children n) (node_value n)"

definition is_value_node :: "TrieNode \<Rightarrow> bool" where
  "is_value_node n \<longleftrightarrow> node_value n \<noteq> None"

text \<open>\<open>children_[c] = n\<close>, \<open>children_.emplace(c, n)\<close> and \<open>children_.erase(c)\<close>.\<close>

definition emplace :: "char \<Rightarrow> TrieNode \<Rightarrow> (char \<times> TrieNode) list \<Rightarrow> (char \<times> TrieNode) list" where
  "emplace c n cs = (if map_of cs c = None then AList.update c n cs else cs)"

text \<open>The loop of \<open>Get\<close> over the characters of the key.\<close>

fun walk :: "TrieNode \<Rightarrow> string \<Rightarrow> TrieNode option" where
  "walk cur [] = Some cur"
| "walk cur (c # key) =
     (case map_of (children cur) c of None \<Rightarrow> None | Some child \<Rightarrow> walk child key)"

definition trie_Get :: "value_type \<Rightarrow> Trie \<Rightarrow> string \<Rightarrow> trie_value option" where
  "trie_Get T trie key =
     (case trie of
        None \<Rightarrow> None
      | Some r \<Rightarrow>
          (case walk r key of
             None \<Rightarrow> None
           | Some cur \<Rightarrow>
               (case node_value cur of
                  None \<Rightarrow> None
                | Some v \<Rightarrow> if type_of v = T then Some v else None)))"

text \<open>\<open>CreateNodeWithValueAndCopyChild\<close>: a value node with the children of the old node, if any.\<close>

definition CreateNodeWithValueAndCopyChild :: "trie_value \<Rightarrow> TrieNode option \<Rightarrow> TrieNode" where
  "CreateNodeWithValueAndCopyChild v old_node =
     TrieNode (case old_node of None \<Rightarrow> [] | Some old \<Rightarrow> children old) (Some v)"

text \<open>
  One round of the inner loop of \<open>Put\<close> for a character of \<open>key_head\<close> (lines 84-92): the
  pair with the key \<open>c\<close> is cloned into \<open>cur_new\<close>, every other pair is emplaced.
\<close>

definition head_step ::
  "char \<Rightarrow> char \<times> TrieNode \<Rightarrow> bool \<times> (char \<times> TrieNode) list \<Rightarrow> bool \<times> (char \<times> TrieNode) list" where
  "head_step c pair acc =
     (if fst pair = c then (True, AList.update c (Clone (snd pair)) (snd acc))
      else (fst acc, emplace (fst pair) (snd pair) (snd acc)))"

text \<open>The same for the last character (lines 108-115).\<close>

definition back_step ::
  "char \<Rightarrow> trie_value \<Rightarrow> char \<times> TrieNode \<Rightarrow> bool \<times> (char \<times> TrieNode) list
     \<Rightarrow> bool \<times> (char \<times> TrieNode) list" where
  "back_step key_back v pair acc =
     (if fst pair = key_back
      then (True, AList.update key_back (CreateNodeWithValueAndCopyChild v (Some (snd pair))) (snd acc))
      else (fst acc, emplace (fst pair) (snd pair) (snd acc)))"

text \<open>
  The \<open>else\<close> branch at the end of \<open>Put\<close> (lines 106-121), as the node \<open>cur_new\<close> after it.
\<close>

definition put_back :: "char \<Rightarrow> trie_value \<Rightarrow> TrieNode option \<Rightarrow> TrieNode \<Rightarrow> TrieNode" where
  "put_back key_back v cur_old cur_new =
     (case cur_old of
        Some old \<Rightarrow>
          (let (exist, cs) = fold (back_step key_back v) (children old) (False, children cur_new)
           in TrieNode (if \<not> exist then AList.update key_back (TrieNode [] (Some v)) cs else cs)
                (node_value cur_new))
      | None \<Rightarrow>
          TrieNode (AList.update key_back (TrieNode [] (Some v)) (children cur_new))
            (node_value cur_new))"

text \<open>
  The loop over \<open>key_head\<close> followed by the \<open>else\<close> branch, as the node \<open>cur_new\<close> with all
  that is written below it: the child for \<open>c\<close> is created, the loop goes on inside that
  child, and the child as written is the one \<open>cur_new\<close> refers to.
\<close>

fun put_head :: "string \<Rightarrow> char \<Rightarrow> trie_value \<Rightarrow> TrieNode option \<Rightarrow> TrieNode \<Rightarrow> TrieNode" where
  "put_head [] key_back v cur_old cur_new = put_back key_back v cur_old cur_new"
| "put_head (c # key_head) key_back v cur_old cur_new =
     (let (exist, cs) = (case cur_old of
                           Some old \<Rightarrow> fold (head_step c) (children old) (False, children cur_new)
                         | None \<Rightarrow> (False, children cur_new));
          cs' = (if \<not> exist then AList.update c (TrieNode [] None) cs else cs);
          cur_old' = (if exist then map_of (children (the cur_old)) c else None)
      in case map_of cs' c of
           None \<Rightarrow> TrieNode cs' (node_value cur_new)
         | Some child \<Rightarrow>
             TrieNode (AList.update c (put_head key_head key_back v cur_old' child) cs')
               (node_value cur_new))"

text \<open>\<open>cur_old\<close> after the loop over \<open>key_head\<close>: the old node at that path, if the path exists.\<close>

fun old_at :: "string \<Rightarrow> TrieNode option \<Rightarrow> TrieNode option" where
  "old_at [] cur_old = cur_old"
| "old_at (c # key_head) cur_old =
     old_at key_head (case cur_old of None \<Rightarrow> None | Some old \<Rightarrow> map_of (children old) c)"

text \<open>
  \<open>Put\<close>.  \<open>key_back\<close> is \<open>'\0'\<close> for the empty key and the last character otherwise.  When
  \<open>key_back\<close> is \<open>'\0'\<close> the node made by \<open>CreateNodeWithValueAndCopyChild\<close> from the final
  \<open>cur_old\<close> replaces \<open>head_node->children_['a']\<close>, that is the root of the new trie, and
  what the loop has written under the former root is not part of the result.
\<close>

definition trie_Put :: "Trie \<Rightarrow> string \<Rightarrow> trie_value \<Rightarrow> Trie" where
  "trie_Put trie key v =
     (let cur_old = trie;
          cur_new = (case trie of Some r \<Rightarrow> Clone r | None \<Rightarrow> TrieNode [] None);
          key_head = butlast key;
          key_back = (if key = [] then CHR 0x00 else last key)
      in if key_back = CHR 0x00
         then Some (CreateNodeWithValueAndCopyChild v (old_at key_head cur_old))
         else Some (put_head key_head key_back v cur_old cur_new))"

text \<open>
  \<open>Remove\<close>.  The loop over the key clones the path and pushes each node with the character
  that leads on (\<open>father_nodes\<close>, top first; the two artificial head nodes below the root's
  entry are the empty stack here).  \<open>None\<close> is the early \<open>return *this\<close>.
\<close>

fun remove_descend ::
  "string \<Rightarrow> TrieNode \<Rightarrow> (TrieNode \<times> char) list \<Rightarrow> ((TrieNode \<times> char) list \<times> TrieNode) option" where
  "remove_descend [] cur_new father_nodes = Some (father_nodes, cur_new)"
| "remove_descend (c # key) cur_new father_nodes =
     (case map_of (children cur_new) c of
        None \<Rightarrow> None
      | Some child \<Rightarrow> remove_descend key (Clone child) ((cur_new, c) # father_nodes))"

text \<open>
  A node written into the slot of the top of the stack is seen from every node below it
  on the stack, up to the root: \<open>relink\<close> is the root after such a write.
\<close>

fun relink :: "(TrieNode \<times> char) list \<Rightarrow> TrieNode \<Rightarrow> TrieNode" where
  "relink [] n = n"
| "relink ((father, c) # father_nodes) n =
     relink father_nodes (TrieNode (AList.update c n (children father)) (node_value father))"

text \<open>
  The erase of the top's slot and the \<open>while\<close> loop after it (lines 173-183): a father left
  without value and without children is erased in turn; the result is the new root, \<open>None\<close>
  when the root itself has been erased.
\<close>

fun prune :: "(TrieNode \<times> char) list \<Rightarrow> Trie" where
  "prune [] = None"
| "prune ((father, c) # father_nodes) =
     (let father' = TrieNode (AList.delete c (children father)) (node_value father)
      in if \<not> is_value_node father' \<and> children father' = []
         then prune father_nodes
         else Some (relink father_nodes father'))"

definition trie_Remove :: "Trie \<Rightarrow> string \<Rightarrow> Trie" where
  "trie_Remove trie key =
     (case trie of
        None \<Rightarrow> None
      | Some r \<Rightarrow>
          (case remove_descend key (Clone r) [] of
             None \<Rightarrow> trie
           | Some (father_nodes, cur_new) \<Rightarrow>
               if \<not> is_value_node cur_new then trie
               else if children cur_new \<noteq> []
               then Some (relink father_nodes (TrieNode (children cur_new) None))
               else prune father_nodes))"

section \<open>Theorems\<close>

subsection \<open>Sort + Limit as TopN\<close>

text \<open>
  C6.  The claim says that \<open>Limit(N){Sort(order-by){child}}\<close> is rewritten to
  \<open>TopN(N, order-by){child}\<close>, the grandchild of the Limit becoming the child of the TopN.
  The code passes \<open>optimized_plan->children_[0]\<close>, which is the Sort node itself, to the
  TopN constructor: on \<open>Limit(5){Sort(ob){SeqScan}}\<close> the result is
  \<open>TopN(5, ob){Sort(ob){SeqScan}}\<close>, and the Sort node is not removed.
\<close>

theorem sort_limit_keeps_sort_node:
  "OptimizeSortLimitAsTopN
     (LimitPlanNode s1 [SortPlanNode s2 [OtherPlanNode SeqScan x s3 []] ob] 5)
   = Some (TopNPlanNode s1 [SortPlanNode s2 [OtherPlanNode SeqScan x s3 []] ob] ob 5)"
  by (simp add: rewrite_top_def)

subsection \<open>Disk scheduler\<close>

lemma process_request_fulfilled:
  "fulfilled (process_request dm r st) = fulfilled st @ [(callback r, True)]"
  by (simp add: process_request_def Let_def split: prod.splits)

lemma process_request_issued:
  "map fst (issued (process_request dm r st)) = map fst (issued st) @ [r]"
  by (simp add: process_request_def Let_def split: prod.splits)

lemma worker_drains_requests:
  "\<exists>st'. StartWorkerThread dm (map Some rs @ None # q) st = (Exited, st')
      \<and> fulfilled st' = fulfilled st @ map (\<lambda>r. (callback r, True)) rs
      \<and> map fst (issued st') = map fst (issued st) @ rs"
proof (induction rs arbitrary: st)
  case Nil
  show ?case by simp
next
  case (Cons r rs)
  obtain st' where
    "StartWorkerThread dm (map Some rs @ None # q) (process_request dm r st) = (Exited, st')"
    "fulfilled st' = fulfilled (process_request dm r st) @ map (\<lambda>r. (callback r, True)) rs"
    "map fst (issued st') = map fst (issued (process_request dm r st)) @ rs"
    using Cons.IH [of "process_request dm r st"] by blast
  then show ?case
    by (simp add: process_request_fulfilled process_request_issued)
qed

text \<open>
  C9, as stated, fails: a write that the DiskManager fails still has its promise fulfilled
  with \<open>true\<close>.  The worker calls \<open>set_value(true)\<close> after every request; no path of the
  code passes \<open>false\<close> or an exception to the promise.
\<close>

theorem failed_write_signalled_success:
  "snd (StartWorkerThread failing_dm
          [Some \<lparr>is_write = True, req_data = 0, req_page_id = 3, callback = 7\<rparr>, None] idle_worker)
     = \<lparr>world = (),
        issued = [(\<lparr>is_write = True, req_data = 0, req_page_id = 3, callback = 7\<rparr>, False)],
        fulfilled = [(7, True)]\<rparr>
   \<and> \<not> signals_follow_io (snd (StartWorkerThread failing_dm
          [Some \<lparr>is_write = True, req_data = 0, req_page_id = 3, callback = 7\<rparr>, None] idle_worker))"
  by (simp add: failing_dm_def idle_worker_def process_request_def signals_follow_io_def)

text \<open>
  C9, amended: whatever the DiskManager does with each call, the worker started on the
  requests \<open>rs\<close> followed by the shutdown sentinel issues exactly the requests \<open>rs\<close> to
  the DiskManager in the order they were scheduled, fulfils the promise of each of them with
  \<open>true\<close>, in that order, and then exits.
\<close>

theorem worker_fifo_always_true:
  "fst (StartWorkerThread dm (map Some rs @ None # q) st) = Exited
   \<and> fulfilled (snd (StartWorkerThread dm (map Some rs @ None # q) st))
       = fulfilled st @ map (\<lambda>r. (callback r, True)) rs
   \<and> map fst (issued (snd (StartWorkerThread dm (map Some rs @ None # q) st)))
       = map fst (issued st) @ rs"
  using worker_drains_requests [of dm rs q st] by auto

subsection \<open>Aggregation over an empty input\<close>

lemma agg_Init_empty_child:
  "agg_Init ops same_key plan [] (new_AggregationExecutor b)
     = Some \<lparr>ht = [], aht_iterator = 0, copy_with_empty = False\<rparr>"
  by (simp add: agg_Init_def new_AggregationExecutor_def)

lemma agg_Next_exhausted:
  "ht ex = [] \<Longrightarrow> copy_with_empty ex \<Longrightarrow> agg_Next plan ex = (None, ex)"
  by (simp add: agg_Next_def)

lemma after_calls_exhausted:
  "ht ex = [] \<Longrightarrow> copy_with_empty ex \<Longrightarrow> after_calls plan n ex = ex"
  by (induction n) (simp_all add: agg_Next_exhausted)

lemma agg_Next_first_on_empty:
  "agg_Next plan \<lparr>ht = [], aht_iterator = 0, copy_with_empty = False\<rparr>
     = ((if group_bys plan = [] then Some (GenerateInitialAggregateValue (agg_types plan)) else None),
        \<lparr>ht = [], aht_iterator = 0, copy_with_empty = True\<rparr>)"
  by (simp add: agg_Next_def)

lemma nth_call_on_empty:
  "nth_call plan n \<lparr>ht = [], aht_iterator = 0, copy_with_empty = False\<rparr>
     = (if n = 0 \<and> group_bys plan = []
        then Some (GenerateInitialAggregateValue (agg_types plan)) else None)"
proof (cases n)
  case 0
  then show ?thesis by (simp add: nth_call_def agg_Next_first_on_empty)
next
  case (Suc m)
  then show ?thesis
    by (simp add: nth_call_def agg_Next_first_on_empty after_calls_exhausted agg_Next_exhausted)
qed

text \<open>
  C5.  A freshly constructed aggregation executor is initialised over a child that
  produces no rows.  Without group-by expressions the first call of \<open>Next\<close> returns the
  row of the initial aggregate values, which holds 0 for every \<open>COUNT(*)\<close> and NULL for
  every other aggregate, and every later call returns false; with group-by expressions
  every call returns false.  (\<open>nth_call plan n\<close> is the result of call number \<open>n + 1\<close>.)
\<close>

theorem aggregation_empty_input:
  assumes "agg_Init ops same_key plan [] (new_AggregationExecutor b) = Some ex"
  shows "(group_bys plan = [] \<longrightarrow>
            nth_call plan 0 ex
              = Some (map (\<lambda>t. if t = CountStarAggregate then IntegerValue 0 else NullInteger)
                        (agg_types plan))
            \<and> (\<forall>n. nth_call plan (Suc n) ex = None))
       \<and> (group_bys plan \<noteq> [] \<longrightarrow> (\<forall>n. nth_call plan n ex = None))"
proof -
  have ex: "ex = \<lparr>ht = [], aht_iterator = 0, copy_with_empty = False\<rparr>"
    using assms by (simp add: agg_Init_empty_child)
  have init: "GenerateInitialAggregateValue (agg_types plan)
      = map (\<lambda>t. if t = CountStarAggregate then IntegerValue 0 else NullInteger) (agg_types plan)"
    unfolding GenerateInitialAggregateValue_def
    by (rule map_cong [OF refl]) (case_tac x; simp)
  show ?thesis
    by (simp add: ex nth_call_on_empty init)
qed

text \<open>The total part of the same fact: initialising over an empty child always succeeds.\<close>

lemma aggregation_empty_init_succeeds:
  "\<exists>ex. agg_Init ops same_key plan [] (new_AggregationExecutor b) = Some ex"
  by (simp add: agg_Init_empty_child)

theorem aggregation_empty_input_witness:
  "agg_Init int_ops (=) count_star_sum_plan [] (new_AggregationExecutor True)
     = Some \<lparr>ht = [], aht_iterator = 0, copy_with_empty = False\<rparr>
   \<and> nth_call count_star_sum_plan 0 \<lparr>ht = [], aht_iterator = 0, copy_with_empty = False\<rparr>
     = Some [IntegerValue 0, NullInteger]
   \<and> nth_call count_star_sum_plan 1 \<lparr>ht = [], aht_iterator = 0, copy_with_empty = False\<rparr> = None
   \<and> agg_Init int_ops (=) grouped_count_plan [] (new_AggregationExecutor True)
     = Some \<lparr>ht = [], aht_iterator = 0, copy_with_empty = False\<rparr>
   \<and> nth_call grouped_count_plan 0 \<lparr>ht = [], aht_iterator = 0, copy_with_empty = False\<rparr> = None"
proof -
  have a: "agg_Init int_ops (=) count_star_sum_plan [] (new_AggregationExecutor True)
     = Some \<lparr>ht = [], aht_iterator = 0, copy_with_empty = False\<rparr>"
    by (simp add: agg_Init_def new_AggregationExecutor_def)
  have b: "agg_Init int_ops (=) grouped_count_plan [] (new_AggregationExecutor True)
     = Some \<lparr>ht = [], aht_iterator = 0, copy_with_empty = False\<rparr>"
    by (simp add: agg_Init_def new_AggregationExecutor_def)
  have ga: "group_bys count_star_sum_plan = []" by (simp add: count_star_sum_plan_def)
  have gb: "group_bys grouped_count_plan \<noteq> []" by (simp add: grouped_count_plan_def)
  have ta: "agg_types count_star_sum_plan = [CountStarAggregate, SumAggregate]"
    by (simp add: count_star_sum_plan_def)
  from aggregation_empty_input [OF a] ga ta
  have first: "nth_call count_star_sum_plan 0 \<lparr>ht = [], aht_iterator = 0, copy_with_empty = False\<rparr>
      = Some [IntegerValue 0, NullInteger]"
    and later: "nth_call count_star_sum_plan (Suc 0)
        \<lparr>ht = [], aht_iterator = 0, copy_with_empty = False\<rparr> = None"
    by simp_all
  from aggregation_empty_input [OF b] gb
  have grouped: "nth_call grouped_count_plan 0
      \<lparr>ht = [], aht_iterator = 0, copy_with_empty = False\<rparr> = None"
    by simp
  from a b first later grouped show ?thesis by simp
qed

subsection \<open>LRU-K replacer: eviction\<close>

lemma find_first_sorted:
  "find P xs = Some x \<Longrightarrow> P y \<Longrightarrow> y \<in> set xs \<Longrightarrow> sorted (map h xs) \<Longrightarrow> h x \<le> h y"
  by (induction xs) (auto split: if_splits)

lemma find_None_set: "find P xs = None \<Longrightarrow> y \<in> set xs \<Longrightarrow> \<not> P y"
  by (simp add: find_None_iff)

lemma find_Some_set: "find P xs = Some x \<Longrightarrow> x \<in> set xs \<and> P x"
  by (induction xs) (auto split: if_splits)

lemma candidates_listed:
  assumes "lists_inv s" "f \<in> candidates s"
  shows "f \<in> set (new_frame s) \<or> f \<in> fst ` set (cache_frame s)"
proof -
  from assms(2) have "recorded_cnt s f \<noteq> 0" by (simp add: candidates_def)
  moreover have "recorded_cnt s f < k s \<or> k s \<le> recorded_cnt s f" by auto
  ultimately show ?thesis using assms(1) unfolding lists_inv_def by blast
qed

lemma finite_candidates: "lists_inv s \<Longrightarrow> finite (candidates s)"
  by (rule finite_subset [of _ "set (new_frame s) \<union> fst ` set (cache_frame s)"])
     (auto dest: candidates_listed)

lemma size_zero_iff:
  assumes "lists_inv s" "size_inv s"
  shows "Size s = 0 \<longleftrightarrow> candidates s = {}"
proof -
  have "Size s = 0 \<longleftrightarrow> unat (curr_size s) = 0"
    by (simp add: Size_def unat_eq_0)
  also have "\<dots> \<longleftrightarrow> card (candidates s) = 0"
    using assms(2) by (simp add: size_inv_def)
  also have "\<dots> \<longleftrightarrow> candidates s = {}"
    using finite_candidates [OF assms(1)] by simp
  finally show ?thesis .
qed

lemma new_frame_infinite_distance:
  "lists_inv s \<Longrightarrow> f \<in> set (new_frame s) \<Longrightarrow> backward_k_distance s f = \<infinity>"
  by (simp add: lists_inv_def backward_k_distance_def)

lemma infinite_distance_in_new_frame:
  "lists_inv s \<Longrightarrow> f \<in> candidates s \<Longrightarrow> backward_k_distance s f = \<infinity> \<Longrightarrow> f \<in> set (new_frame s)"
  by (auto simp: lists_inv_def backward_k_distance_def candidates_def split: if_splits)

lemma cache_distance:
  assumes "lists_inv s" "history_inv s" "f \<in> fst ` set (cache_frame s)"
  shows "backward_k_distance s f = enat (unat (current_timestamp s - first_access s f))"
proof -
  from assms(1,3) have c: "k s \<le> recorded_cnt s f" by (simp add: lists_inv_def)
  with assms(2) have "length (time_frame s f) = unat (k s)"
    by (simp add: history_inv_def min_def)
  moreover from assms(2) have "unat (k s) \<noteq> 0" by (simp add: history_inv_def unat_eq_0)
  ultimately have "kth_recent s f = first_access s f"
    by (cases "time_frame s f") (simp_all add: kth_recent_def first_access_def)
  with c show ?thesis by (simp add: backward_k_distance_def not_less [symmetric])
qed

lemma word_diff_mono:
  fixes a b c :: size_t
  assumes "a \<le> b" "b \<le> c"
  shows "unat (c - b) \<le> unat (c - a)"
proof -
  from assms have "a \<le> c" by simp
  then have "unat (c - a) = unat c - unat a" by (simp add: unat_sub)
  moreover from assms have "unat (c - b) = unat c - unat b" by (simp add: unat_sub)
  moreover from assms have "unat a \<le> unat b" by (simp add: word_le_nat_alt)
  ultimately show ?thesis by simp
qed

lemma cache_first_access_bound:
  assumes "lists_inv s" "history_inv s" "f \<in> fst ` set (cache_frame s)"
  shows "first_access s f \<le> current_timestamp s"
proof -
  from assms(1,3) have c: "k s \<le> recorded_cnt s f" by (simp add: lists_inv_def)
  with assms(2) have "length (time_frame s f) = unat (k s)"
    by (simp add: history_inv_def min_def)
  moreover from assms(2) have "unat (k s) \<noteq> 0" by (simp add: history_inv_def unat_eq_0)
  ultimately have "time_frame s f \<noteq> []" by auto
  then have "hd (time_frame s f) \<in> set (time_frame s f)" by simp
  with assms(2) show ?thesis by (simp add: history_inv_def first_access_def)
qed


lemma Evict_new_frame_case:
  assumes inv: "replacer_inv s" and ne: "Size s \<noteq> 0"
    and fnd: "find (evictable s) (rev (new_frame s)) = Some victim"
  shows "\<exists>s'. Evict s = (Some victim, s')
            \<and> victim \<in> candidates s
            \<and> (\<forall>g \<in> candidates s. backward_k_distance s g \<le> backward_k_distance s victim)
            \<and> (\<forall>g \<in> candidates s. backward_k_distance s g = \<infinity> \<longrightarrow>
                  first_access s victim \<le> first_access s g)
            \<and> time_frame s' victim = [] \<and> recorded_cnt s' victim = 0
            \<and> Size s' = Size s - 1"
proof -
  from inv have li: "lists_inv s" and oi: "order_inv s" by (simp_all add: replacer_inv_def)
  from find_Some_set [OF fnd] have v: "victim \<in> set (new_frame s)" "evictable s victim" by simp_all
  from li v(1) have "recorded_cnt s victim \<noteq> 0" by (simp add: lists_inv_def)
  with v(2) have cand: "victim \<in> candidates s" by (simp add: candidates_def)
  have inf: "backward_k_distance s victim = \<infinity>"
    by (rule new_frame_infinite_distance [OF li v(1)])
  have tie: "first_access s victim \<le> first_access s g"
    if "g \<in> candidates s" "backward_k_distance s g = \<infinity>" for g
  proof -
    from infinite_distance_in_new_frame [OF li that] have "g \<in> set (rev (new_frame s))" by simp
    moreover from that(1) have "evictable s g" by (simp add: candidates_def)
    moreover from oi have "sorted (map (first_access s) (rev (new_frame s)))"
      by (simp add: order_inv_def)
    ultimately show ?thesis using find_first_sorted [OF fnd] by blast
  qed
  show ?thesis
    using ne fnd cand inf tie by (simp add: Evict_def Size_def)
qed

lemma Evict_cache_frame_case:
  assumes inv: "replacer_inv s" and ne: "Size s \<noteq> 0"
    and none: "find (evictable s) (rev (new_frame s)) = None"
    and fnd: "find (\<lambda>e. evictable s (fst e)) (cache_frame s) = Some e"
  shows "\<exists>s'. Evict s = (Some (fst e), s')
            \<and> fst e \<in> candidates s
            \<and> (\<forall>g \<in> candidates s. backward_k_distance s g \<le> backward_k_distance s (fst e))
            \<and> backward_k_distance s (fst e) \<noteq> \<infinity>
            \<and> time_frame s' (fst e) = [] \<and> recorded_cnt s' (fst e) = 0
            \<and> Size s' = Size s - 1"
proof -
  from inv have li: "lists_inv s" and oi: "order_inv s" and hi: "history_inv s"
    by (simp_all add: replacer_inv_def)
  from find_Some_set [OF fnd] have e: "e \<in> set (cache_frame s)" "evictable s (fst e)" by simp_all
  then have ec: "fst e \<in> fst ` set (cache_frame s)" by simp
  with li have "recorded_cnt s (fst e) \<noteq> 0" by (simp add: lists_inv_def)
  with e(2) have cand: "fst e \<in> candidates s" by (simp add: candidates_def)
  have de: "backward_k_distance s (fst e)
      = enat (unat (current_timestamp s - first_access s (fst e)))"
    by (rule cache_distance [OF li hi ec])
  have le: "backward_k_distance s g \<le> backward_k_distance s (fst e)" if g: "g \<in> candidates s" for g
  proof -
    from g have eg: "evictable s g" by (simp add: candidates_def)
    with none have "g \<notin> set (new_frame s)"
      using find_None_set [OF none, of g] by auto
    with candidates_listed [OF li g] have gc: "g \<in> fst ` set (cache_frame s)" by simp
    then obtain e' where e': "e' \<in> set (cache_frame s)" "fst e' = g" by auto
    from oi have srt: "sorted (map snd (cache_frame s))" by (simp add: order_inv_def)
    from eg e' have "evictable s (fst e')" by simp
    then have "snd e \<le> snd e'"
      using find_first_sorted [OF fnd _ e'(1) srt] by simp
    moreover from oi e e' have "snd e = first_access s (fst e)" "snd e' = first_access s g"
      by (auto simp: order_inv_def)
    ultimately have "first_access s (fst e) \<le> first_access s g" by simp
    moreover have "first_access s g \<le> current_timestamp s"
      by (rule cache_first_access_bound [OF li hi gc])
    ultimately have "unat (current_timestamp s - first_access s g)
        \<le> unat (current_timestamp s - first_access s (fst e))"
      by (rule word_diff_mono)
    then show ?thesis by (simp add: de cache_distance [OF li hi gc])
  qed
  show ?thesis
    using ne none fnd cand le de by (simp add: Evict_def Size_def)
qed

lemma Evict_finds_candidate:
  assumes inv: "replacer_inv s" and g: "g \<in> candidates s"
    and none: "find (evictable s) (rev (new_frame s)) = None"
  shows "find (\<lambda>e. evictable s (fst e)) (cache_frame s) \<noteq> None"
proof -
  from inv have li: "lists_inv s" by (simp add: replacer_inv_def)
  from g have eg: "evictable s g" by (simp add: candidates_def)
  with none have "g \<notin> set (new_frame s)"
    using find_None_set [OF none, of g] by auto
  with candidates_listed [OF li g] obtain e' where "e' \<in> set (cache_frame s)" "fst e' = g" by auto
  with eg have "\<exists>x \<in> set (cache_frame s). evictable s (fst x)" by blast
  then show ?thesis unfolding find_None_iff by blast
qed

text \<open>
  C3.  In every state that satisfies the representation invariant: when no tracked frame
  is evictable \<open>Evict\<close> returns nothing and leaves the state as it is; otherwise it returns
  an evictable tracked frame whose backward k-distance is largest among the evictable
  tracked frames, which among the frames of distance \<open>\<infinity>\<close> is one with the earliest first
  access; the victim's history is cleared, and \<open>Size\<close>, which was not 0, is decremented.
\<close>

theorem evict_largest_backward_k_distance:
  assumes inv: "replacer_inv s"
  shows "(candidates s = {} \<longrightarrow> Evict s = (None, s))
       \<and> (candidates s \<noteq> {} \<longrightarrow>
            (\<exists>victim s'. Evict s = (Some victim, s')
               \<and> victim \<in> candidates s
               \<and> (\<forall>g \<in> candidates s. backward_k_distance s g \<le> backward_k_distance s victim)
               \<and> (backward_k_distance s victim = \<infinity> \<longrightarrow>
                    (\<forall>g \<in> candidates s. backward_k_distance s g = \<infinity> \<longrightarrow>
                       first_access s victim \<le> first_access s g))
               \<and> time_frame s' victim = [] \<and> recorded_cnt s' victim = 0
               \<and> Size s \<noteq> 0 \<and> Size s' = Size s - 1))"
proof (intro conjI impI)
  from inv have li: "lists_inv s" and si: "size_inv s" by (simp_all add: replacer_inv_def)
  {
    assume "candidates s = {}"
    then have "Size s = 0" using size_zero_iff [OF li si] by simp
    then show "Evict s = (None, s)" by (simp add: Evict_def)
  }
  {
    assume c: "candidates s \<noteq> {}"
    then have ne: "Size s \<noteq> 0" using size_zero_iff [OF li si] by simp
    show "\<exists>victim s'. Evict s = (Some victim, s')
               \<and> victim \<in> candidates s
               \<and> (\<forall>g \<in> candidates s. backward_k_distance s g \<le> backward_k_distance s victim)
               \<and> (backward_k_distance s victim = \<infinity> \<longrightarrow>
                    (\<forall>g \<in> candidates s. backward_k_distance s g = \<infinity> \<longrightarrow>
                       first_access s victim \<le> first_access s g))
               \<and> time_frame s' victim = [] \<and> recorded_cnt s' victim = 0
               \<and> Size s \<noteq> 0 \<and> Size s' = Size s - 1"
    proof (cases "find (evictable s) (rev (new_frame s))")
      case (Some victim)
      from Evict_new_frame_case [OF inv ne Some] ne show ?thesis by blast
    next
      case None
      from c obtain g where "g \<in> candidates s" by auto
      from Evict_finds_candidate [OF inv this None]
      obtain e where "find (\<lambda>e. evictable s (fst e)) (cache_frame s) = Some e" by auto
      from Evict_cache_frame_case [OF inv ne None this]
      obtain s' where "Evict s = (Some (fst e), s')" "fst e \<in> candidates s"
        "\<forall>g \<in> candidates s. backward_k_distance s g \<le> backward_k_distance s (fst e)"
        "backward_k_distance s (fst e) \<noteq> \<infinity>"
        "time_frame s' (fst e) = []" "recorded_cnt s' (fst e) = 0" "Size s' = Size s - 1"
        by blast
      with ne show ?thesis by (intro exI [of _ "fst e"] exI [of _ s']) blast
    qed
  }
qed


lemma scenario3_reached:
  "(case RecordAccess 0 (new_LRUKReplacer 7 2) of Inl e \<Rightarrow> Inl e | Inr s1 \<Rightarrow>
      (case RecordAccess 1 s1 of Inl e \<Rightarrow> Inl e | Inr s2 \<Rightarrow> RecordAccess 0 s2)) = Inr scenario3"
  by (simp add: RecordAccess_def new_LRUKReplacer_def scenario3_def Let_def move_to_cache_def
        insert_upper_bound_def fun_upd_twist)

lemma scenario3_candidates: "candidates scenario3 = {0, 1}"
  by (auto simp: candidates_def scenario3_def)

lemma scenario3_inv: "replacer_inv scenario3"
proof -
  have "lists_inv scenario3"
    by (auto simp: lists_inv_def scenario3_def word_le_nat_alt word_less_nat_alt)
  moreover have "history_inv scenario3"
    by (auto simp: history_inv_def scenario3_def word_le_nat_alt word_less_nat_alt)
  moreover have "order_inv scenario3"
    by (simp add: order_inv_def scenario3_def first_access_def)
  moreover have "size_inv scenario3"
    by (simp add: size_inv_def scenario3_candidates) (simp add: scenario3_def)
  moreover have "tracked_inv scenario3"
    by (simp add: tracked_inv_def scenario3_def)
  ultimately show ?thesis by (simp add: replacer_inv_def)
qed

theorem evict_largest_backward_k_distance_witness:
  "replacer_inv scenario3 \<and> candidates scenario3 \<noteq> {}
   \<and> fst (Evict scenario3) = Some 1
   \<and> 1 \<in> candidates scenario3
   \<and> backward_k_distance scenario3 0 \<le> backward_k_distance scenario3 1
   \<and> time_frame (snd (Evict scenario3)) 1 = []
   \<and> Size (snd (Evict scenario3)) = Size scenario3 - 1"
proof -
  have ne: "candidates scenario3 \<noteq> {}" by (simp add: scenario3_candidates)
  have ev: "fst (Evict scenario3) = Some 1"
    by (simp add: Evict_def Size_def scenario3_def)
  from evict_largest_backward_k_distance [OF scenario3_inv] ne
  obtain victim s' where r: "Evict scenario3 = (Some victim, s')"
    "victim \<in> candidates scenario3"
    "\<forall>g \<in> candidates scenario3. backward_k_distance scenario3 g \<le> backward_k_distance scenario3 victim"
    "time_frame s' victim = []" "Size s' = Size scenario3 - 1"
    by blast
  from r(1) ev have v: "victim = 1" by simp
  have "0 \<in> candidates scenario3" by (simp add: scenario3_candidates)
  with r(3) v have "backward_k_distance scenario3 0 \<le> backward_k_distance scenario3 1" by blast
  with r v ne scenario3_inv show ?thesis by simp
qed

subsection \<open>LRU-K replacer: the first access of a frame\<close>

lemma find_unique_Some:
  "\<exists>y \<in> set xs. P y \<Longrightarrow> \<forall>y \<in> set xs. P y \<longrightarrow> h y = a \<Longrightarrow> \<exists>x. find P xs = Some x \<and> h x = a"
  by (induction xs) auto

lemma set_insert_upper_bound: "set (insert_upper_bound e xs) = insert e (set xs)"
proof -
  have "set xs = set (takeWhile (\<lambda>x. \<not> CmpTimestamp e x) xs @ dropWhile (\<lambda>x. \<not> CmpTimestamp e x) xs)"
    by simp
  also have "\<dots> = set (takeWhile (\<lambda>x. \<not> CmpTimestamp e x) xs) \<union> set (dropWhile (\<lambda>x. \<not> CmpTimestamp e x) xs)"
    by (rule set_append)
  finally show ?thesis
    unfolding insert_upper_bound_def by (simp only: set_append list.set) blast
qed

lemma word_one_not_greater: "(k' :: size_t) \<noteq> 0 \<Longrightarrow> \<not> k' < 1"
  by (simp add: word_less_1)

text \<open>
  C8, amended.  For a frame identifier within the configured capacity that has no recorded
  access, in a replacer with \<open>k > 0\<close> whose \<open>curr_size_\<close> differs from \<open>max_size_\<close>,
  \<open>RecordAccess\<close> returns, marks the frame evictable and increments \<open>Size\<close>; and when no other
  frame of the two lists is evictable, the \<open>Evict\<close> that follows returns this very frame.
\<close>

theorem record_access_new_frame_is_evictable:
  assumes range: "frame_id \<le> sint (ucast (replacer_size s) :: 32 word)"
    and unseen: "recorded_cnt s frame_id = 0"
    and room: "curr_size s \<noteq> max_size s"
    and k0: "k s \<noteq> 0"
  shows "\<exists>s'. RecordAccess frame_id s = Inr s' \<and> evictable s' frame_id \<and> Size s' = Size s + 1
           \<and> ((\<forall>g. g \<noteq> frame_id \<longrightarrow> g \<in> set (new_frame s) \<union> fst ` set (cache_frame s)
                    \<longrightarrow> \<not> evictable s g) \<and> Size s + 1 \<noteq> 0
                \<longrightarrow> fst (Evict s') = Some frame_id)"
proof (cases "k s = 1")
  case True
  define ts where "ts = current_timestamp s + 1"
  define kth where "kth = hd (time_frame s frame_id @ [ts])"
  define s' where "s' = s\<lparr>current_timestamp := ts,
      recorded_cnt := (recorded_cnt s)(frame_id := 1),
      time_frame := (time_frame s)(frame_id := time_frame s frame_id @ [ts]),
      evictable := (evictable s)(frame_id := True),
      curr_size := curr_size s + 1,
      new_frame := remove1 frame_id (frame_id # new_frame s),
      cache_frame := insert_upper_bound (frame_id, kth) (cache_frame s)\<rparr>"
  have ra: "RecordAccess frame_id s = Inr s'"
    using range unseen room True
    by (cases "time_frame s frame_id")
       (simp_all add: RecordAccess_def Let_def move_to_cache_def s'_def ts_def kth_def)
  have ev: "fst (Evict s') = Some frame_id"
    if others: "\<forall>g. g \<noteq> frame_id \<longrightarrow> g \<in> set (new_frame s) \<union> fst ` set (cache_frame s)
                    \<longrightarrow> \<not> evictable s g"
      and nz: "Size s + 1 \<noteq> 0"
  proof -
    have sz: "Size s' \<noteq> 0" using nz by (simp add: s'_def Size_def)
    show ?thesis
    proof (cases "find (evictable s') (rev (new_frame s'))")
      case (Some g)
      from find_Some_set [OF Some] have "g \<in> set (new_frame s)" "evictable s' g"
        by (simp_all add: s'_def)
      with others have "g = frame_id" by (auto simp: s'_def split: if_splits)
      with Some sz show ?thesis by (simp add: Evict_def)
    next
      case None
      have "\<exists>y \<in> set (cache_frame s'). evictable s' (fst y)"
        by (rule bexI [of _ "(frame_id, kth)"]) (simp_all add: s'_def set_insert_upper_bound)
      moreover have "\<forall>y \<in> set (cache_frame s'). evictable s' (fst y) \<longrightarrow> fst y = frame_id"
        using others by (auto simp: s'_def set_insert_upper_bound split: if_splits)
      ultimately obtain e where "find (\<lambda>e. evictable s' (fst e)) (cache_frame s') = Some e"
        "fst e = frame_id"
        using find_unique_Some [of "cache_frame s'" "\<lambda>e. evictable s' (fst e)" fst frame_id] by blast
      with None sz show ?thesis by (simp add: Evict_def)
    qed
  qed
  have "evictable s' frame_id" "Size s' = Size s + 1" by (simp_all add: s'_def Size_def)
  with ra ev show ?thesis by blast
next
  case False
  define ts where "ts = current_timestamp s + 1"
  define s' where "s' = s\<lparr>current_timestamp := ts,
      recorded_cnt := (recorded_cnt s)(frame_id := 1),
      time_frame := (time_frame s)(frame_id := time_frame s frame_id @ [ts]),
      evictable := (evictable s)(frame_id := True),
      curr_size := curr_size s + 1,
      new_frame := frame_id # new_frame s\<rparr>"
  have "\<not> k s < 1" using k0 by (rule word_one_not_greater)
  then have ra: "RecordAccess frame_id s = Inr s'"
    using range unseen room False
    by (auto simp add: RecordAccess_def Let_def s'_def ts_def)
  have ev: "fst (Evict s') = Some frame_id"
    if others: "\<forall>g. g \<noteq> frame_id \<longrightarrow> g \<in> set (new_frame s) \<union> fst ` set (cache_frame s)
                    \<longrightarrow> \<not> evictable s g"
      and nz: "Size s + 1 \<noteq> 0"
  proof -
    have sz: "Size s' \<noteq> 0" using nz by (simp add: s'_def Size_def)
    have "\<exists>y \<in> set (rev (new_frame s')). evictable s' y"
      by (rule bexI [of _ frame_id]) (simp_all add: s'_def)
    moreover have "\<forall>y \<in> set (rev (new_frame s')). evictable s' y \<longrightarrow> id y = frame_id"
      using others by (auto simp: s'_def split: if_splits)
    ultimately obtain g where "find (evictable s') (rev (new_frame s')) = Some g" "g = frame_id"
      using find_unique_Some [of "rev (new_frame s')" "evictable s'" id frame_id] by auto
    with sz show ?thesis by (simp add: Evict_def)
  qed
  have "evictable s' frame_id" "Size s' = Size s + 1" by (simp_all add: s'_def Size_def)
  with ra ev show ?thesis by blast
qed

text \<open>
  C8, as stated, fails: in a new replacer for 7 frames with \<open>k = 2\<close>, the first access of
  frame 1 leaves the frame evictable, \<open>Size\<close> goes from 0 to 1, and \<open>Evict\<close> returns frame 1.
\<close>

theorem record_access_new_frame_counterexample:
  "\<not> isl (RecordAccess 1 (new_LRUKReplacer 7 2))
   \<and> recorded_cnt (new_LRUKReplacer 7 2) 1 = 0
   \<and> Size (new_LRUKReplacer 7 2) = 0
   \<and> evictable (projr (RecordAccess 1 (new_LRUKReplacer 7 2))) 1
   \<and> Size (projr (RecordAccess 1 (new_LRUKReplacer 7 2))) = 1
   \<and> fst (Evict (projr (RecordAccess 1 (new_LRUKReplacer 7 2)))) = Some 1"
  by (simp add: RecordAccess_def new_LRUKReplacer_def Let_def Evict_def Size_def)

theorem record_access_new_frame_is_evictable_witness:
  "evictable (projr (RecordAccess 1 (new_LRUKReplacer 7 2))) 1
   \<and> Size (projr (RecordAccess 1 (new_LRUKReplacer 7 2))) = Size (new_LRUKReplacer 7 2) + 1
   \<and> fst (Evict (projr (RecordAccess 1 (new_LRUKReplacer 7 2)))) = Some 1"
proof -
  have "(1::int) \<le> sint (ucast (replacer_size (new_LRUKReplacer 7 2)) :: 32 word)"
    by (simp add: new_LRUKReplacer_def)
  moreover have "recorded_cnt (new_LRUKReplacer 7 2) 1 = 0"
    "curr_size (new_LRUKReplacer 7 2) \<noteq> max_size (new_LRUKReplacer 7 2)"
    "k (new_LRUKReplacer 7 2) \<noteq> 0"
    by (simp_all add: new_LRUKReplacer_def)
  ultimately obtain s' where r: "RecordAccess 1 (new_LRUKReplacer 7 2) = Inr s'" "evictable s' 1"
    "Size s' = Size (new_LRUKReplacer 7 2) + 1"
    "(\<forall>g. g \<noteq> 1 \<longrightarrow> g \<in> set (new_frame (new_LRUKReplacer 7 2)) \<union> fst ` set (cache_frame (new_LRUKReplacer 7 2))
                    \<longrightarrow> \<not> evictable (new_LRUKReplacer 7 2) g) \<and> Size (new_LRUKReplacer 7 2) + 1 \<noteq> 0
                \<longrightarrow> fst (Evict s') = Some 1"
    using record_access_new_frame_is_evictable [of 1 "new_LRUKReplacer 7 2"] by blast
  have "Size (new_LRUKReplacer 7 2) + 1 \<noteq> 0" by (simp add: new_LRUKReplacer_def Size_def)
  moreover have "\<forall>g. g \<noteq> 1 \<longrightarrow> g \<in> set (new_frame (new_LRUKReplacer 7 2)) \<union> fst ` set (cache_frame (new_LRUKReplacer 7 2))
                    \<longrightarrow> \<not> evictable (new_LRUKReplacer 7 2) g"
    by (simp add: new_LRUKReplacer_def)
  ultimately have "fst (Evict s') = Some 1" using r(4) by blast
  with r show ?thesis by simp
qed

subsection \<open>LRU-K replacer: the representation invariant\<close>

lemma new_replacer_inv: "k' \<noteq> 0 \<Longrightarrow> replacer_inv (new_LRUKReplacer n k')"
  by (simp add: replacer_inv_def lists_inv_def history_inv_def order_inv_def size_inv_def
      tracked_inv_def candidates_def new_LRUKReplacer_def)

lemma first_access_untrack: "g \<noteq> f \<Longrightarrow> first_access (untrack f s) g = first_access s g"
  by (simp add: first_access_def untrack_def)

lemma untrack_lists_inv:
  assumes "lists_inv s"
  shows "lists_inv (untrack f s)"
  using assms unfolding lists_inv_def untrack_def
  by (auto simp: distinct_map_filter distinct_removeAll)

lemma untrack_history_inv:
  assumes "history_inv s"
  shows "history_inv (untrack f s)"
  using assms unfolding history_inv_def untrack_def by auto

lemma sorted_map_filter: "sorted (map h xs) \<Longrightarrow> sorted (map h (filter P xs))"
  by (induction xs) auto

lemma untrack_order_inv:
  assumes "order_inv s"
  shows "order_inv (untrack f s)"
proof -
  have c1: "\<forall>e \<in> set (cache_frame (untrack f s)). snd e = first_access (untrack f s) (fst e)"
    using assms by (auto simp: order_inv_def untrack_def first_access_def)
  have c2: "sorted (map snd (cache_frame (untrack f s)))"
    using assms by (simp add: order_inv_def untrack_def sorted_map_filter)
  have "map (first_access (untrack f s)) (rev (new_frame (untrack f s)))
      = map (first_access s) (filter ((\<noteq>) f) (rev (new_frame s)))"
    by (auto simp: untrack_def removeAll_filter_not_eq rev_filter first_access_def intro!: map_cong)
  moreover have "sorted (map (first_access s) (filter ((\<noteq>) f) (rev (new_frame s))))"
    using assms by (simp add: order_inv_def sorted_map_filter)
  ultimately show ?thesis using c1 c2 by (simp add: order_inv_def)
qed


lemma candidates_untrack: "candidates (untrack f s) = candidates s - {f}"
  by (auto simp: candidates_def untrack_def)


lemma untrack_size_inv:
  assumes "lists_inv s" "size_inv s" "f \<in> candidates s"
  shows "size_inv (untrack f s)"
proof -
  from assms have pos: "0 < card (candidates s)"
    using finite_candidates [OF assms(1)] by (auto simp: card_gt_0_iff)
  with assms(2) have "curr_size s \<noteq> 0" by (auto simp: size_inv_def)
  then have "unat (curr_size s - 1) = unat (curr_size s) - 1"
    by (simp add: unat_minus_one)
  moreover have "card (candidates s - {f}) = card (candidates s) - 1"
    using assms(3) finite_candidates [OF assms(1)] by simp
  ultimately show ?thesis
    using assms(2) by (simp add: size_inv_def candidates_untrack) (simp add: untrack_def)
qed

lemma untrack_tracked_inv:
  assumes "tracked_inv s"
  shows "tracked_inv (untrack f s)"
proof -
  have a: "length (removeAll f (new_frame s)) \<le> length (new_frame s)"
    by (simp add: removeAll_filter_not_eq)
  have b: "length (filter (\<lambda>e. fst e \<noteq> f) (cache_frame s)) \<le> length (cache_frame s)"
    by simp
  from assms have "length (new_frame s) + length (cache_frame s) \<le> unat (current_timestamp s)"
    by (simp add: tracked_inv_def)
  with a b have "length (removeAll f (new_frame s))
      + length (filter (\<lambda>e. fst e \<noteq> f) (cache_frame s)) \<le> unat (current_timestamp s)"
    by linarith
  then show ?thesis by (simp add: tracked_inv_def untrack_def)
qed

lemma untrack_inv:
  assumes "replacer_inv s" "f \<in> candidates s"
  shows "replacer_inv (untrack f s)"
  using assms
  by (simp add: replacer_inv_def untrack_lists_inv untrack_history_inv untrack_order_inv
      untrack_size_inv untrack_tracked_inv)

lemma remove1_fst_filter:
  "distinct (map fst xs) \<Longrightarrow> e \<in> set xs \<Longrightarrow> remove1 e xs = filter (\<lambda>x. fst x \<noteq> fst e) xs"
proof (induction xs)
  case Nil
  then show ?case by simp
next
  case (Cons x xs)
  show ?case
  proof (cases "x = e")
    case True
    from Cons.prems(1) have "fst x \<notin> fst ` set xs" by simp
    with True have "\<forall>y \<in> set xs. fst y \<noteq> fst e" by (metis imageI)
    then have "filter (\<lambda>x. fst x \<noteq> fst e) xs = xs" by (simp add: filter_id_conv)
    with True show ?thesis by simp
  next
    case False
    with Cons.prems have "e \<in> set xs" "fst x \<noteq> fst e" by force+
    with Cons.IH Cons.prems(1) False show ?thesis by simp
  qed
qed

lemma erase_frame_filter:
  "distinct (map fst xs) \<Longrightarrow> erase_frame f xs = filter (\<lambda>x. fst x \<noteq> f) xs"
proof (induction xs)
  case Nil
  then show ?case by simp
next
  case (Cons x xs)
  show ?case
  proof (cases "fst x = f")
    case True
    from Cons.prems have "fst x \<notin> fst ` set xs" by simp
    with True have "\<forall>y \<in> set xs. fst y \<noteq> f" by (metis imageI)
    then have "filter (\<lambda>x. fst x \<noteq> f) xs = xs" by (simp add: filter_id_conv)
    with True show ?thesis by simp
  next
    case False
    with Cons show ?thesis by simp
  qed
qed

lemma filter_absent: "f \<notin> fst ` set xs \<Longrightarrow> filter (\<lambda>x. fst x \<noteq> f) xs = xs"
  by (auto simp: filter_id_conv)

lemma removeAll_remove1: "distinct xs \<Longrightarrow> remove1 x xs = removeAll x xs"
  by (simp add: distinct_remove1_removeAll)

lemma new_cache_disjoint:
  "lists_inv s \<Longrightarrow> f \<in> set (new_frame s) \<Longrightarrow> f \<notin> fst ` set (cache_frame s)"
  "lists_inv s \<Longrightarrow> f \<in> fst ` set (cache_frame s) \<Longrightarrow> f \<notin> set (new_frame s)"
  unfolding lists_inv_def by (metis not_le)+

lemma Evict_is_untrack:
  assumes inv: "replacer_inv s" and ev: "Evict s = (Some f, s')"
  shows "s' = untrack f s \<and> f \<in> candidates s"
proof -
  from inv have li: "lists_inv s" by (simp add: replacer_inv_def)
  from ev have ne: "Size s \<noteq> 0" by (auto simp: Evict_def split: if_splits)
  show ?thesis
  proof (cases "find (evictable s) (rev (new_frame s))")
    case (Some g)
    with ev ne have g: "g = f" and s': "s' = s\<lparr>recorded_cnt := (recorded_cnt s)(f := 0),
             new_frame := removeAll f (new_frame s),
             curr_size := curr_size s - 1,
             time_frame := (time_frame s)(f := [])\<rparr>"
      by (auto simp: Evict_def)
    from find_Some_set [OF Some] g have f: "f \<in> set (new_frame s)" "evictable s f" by simp_all
    from new_cache_disjoint(1) [OF li f(1)] have "filter (\<lambda>e. fst e \<noteq> f) (cache_frame s) = cache_frame s"
      by (rule filter_absent)
    moreover from li f have "f \<in> candidates s" by (simp add: lists_inv_def candidates_def)
    ultimately show ?thesis by (simp add: s' untrack_def)
  next
    case None
    with ev ne obtain e where e: "find (\<lambda>e. evictable s (fst e)) (cache_frame s) = Some e"
      and f: "fst e = f"
      and s': "s' = s\<lparr>recorded_cnt := (recorded_cnt s)(f := 0),
                  cache_frame := remove1 e (cache_frame s),
                  curr_size := curr_size s - 1,
                  time_frame := (time_frame s)(f := [])\<rparr>"
      by (auto simp: Evict_def split: option.splits)
    from find_Some_set [OF e] have es: "e \<in> set (cache_frame s)" "evictable s (fst e)" by simp_all
    from li have "distinct (map fst (cache_frame s))" by (simp add: lists_inv_def)
    from remove1_fst_filter [OF this es(1)] f
    have r: "remove1 e (cache_frame s) = filter (\<lambda>x. fst x \<noteq> f) (cache_frame s)" by simp
    from es f have fc: "f \<in> fst ` set (cache_frame s)" by auto
    from new_cache_disjoint(2) [OF li fc] have "removeAll f (new_frame s) = new_frame s" by simp
    moreover from li fc es f have "f \<in> candidates s" by (simp add: lists_inv_def candidates_def)
    ultimately show ?thesis by (simp add: s' r untrack_def)
  qed
qed

lemma Evict_preserves_inv:
  assumes "replacer_inv s"
  shows "replacer_inv (snd (Evict s))"
proof (cases "fst (Evict s)")
  case None
  then have "Evict s = (None, s)"
    by (auto simp: Evict_def split: if_splits option.splits)
  with assms show ?thesis by simp
next
  case (Some f)
  then have "Evict s = (Some f, snd (Evict s))" by (metis prod.collapse)
  from Evict_is_untrack [OF assms this] untrack_inv [OF assms] show ?thesis by simp
qed

lemma step_ts:
  assumes "current_timestamp s + 1 \<noteq> 0"
  shows "unat (current_timestamp s + 1) = unat (current_timestamp s) + 1"
    and "current_timestamp s \<le> current_timestamp s + 1"
    and "current_timestamp s < current_timestamp s + 1"
proof -
  show a: "unat (current_timestamp s + 1) = unat (current_timestamp s) + 1"
    using assms unatSuc [of "current_timestamp s"] by (simp add: add.commute)
  then show "current_timestamp s \<le> current_timestamp s + 1"
    by (simp add: word_le_nat_alt)
  from a show "current_timestamp s < current_timestamp s + 1"
    by (simp add: word_less_nat_alt)
qed

lemma step_cnt:
  assumes h: "history_inv s" and ts: "current_timestamp s + 1 \<noteq> 0"
  shows "unat (recorded_cnt s f + 1) = unat (recorded_cnt s f) + 1"
    and "recorded_cnt s f + 1 \<noteq> 0"
    and "recorded_cnt s f < recorded_cnt s f + 1"
    and "recorded_cnt s f + 1 \<le> current_timestamp s + 1"
proof -
  from h have le: "unat (recorded_cnt s f) \<le> unat (current_timestamp s)"
    by (simp add: history_inv_def word_le_nat_alt)
  have "unat (current_timestamp s) + unat (1 :: size_t) < 2 ^ LENGTH(64)"
    using step_ts(1) [OF ts] unat_add_lem [of "current_timestamp s" 1] by simp
  with le have "unat (recorded_cnt s f) + unat (1 :: size_t) < 2 ^ LENGTH(64)"
    by simp
  then have "unat (recorded_cnt s f + 1) = unat (recorded_cnt s f) + unat (1 :: size_t)"
    by (simp only: unat_add_lem)
  then show a: "unat (recorded_cnt s f + 1) = unat (recorded_cnt s f) + 1" by simp
  then show "recorded_cnt s f + 1 \<noteq> 0" by (metis Suc_eq_plus1 nat.distinct(1) unat_0)
  from a show "recorded_cnt s f < recorded_cnt s f + 1" by (simp add: word_less_nat_alt)
  from a le step_ts(1) [OF ts] show "recorded_cnt s f + 1 \<le> current_timestamp s + 1"
    by (simp add: word_le_nat_alt)
qed

lemma untracked_history:
  assumes "history_inv s" "recorded_cnt s f = 0"
  shows "time_frame s f = []"
proof -
  from assms have "length (time_frame s f) = unat (min (0 :: size_t) (k s))"
    by (simp add: history_inv_def)
  then show ?thesis by simp
qed

lemma tracked_history:
  assumes "history_inv s" "recorded_cnt s f \<noteq> 0"
  shows "time_frame s f \<noteq> []"
proof -
  from assms have "k s \<noteq> 0" "length (time_frame s f) = unat (min (recorded_cnt s f) (k s))"
    by (simp_all add: history_inv_def)
  moreover from this assms(2) have "min (recorded_cnt s f) (k s) \<noteq> 0"
    by (simp add: min_def)
  ultimately have "length (time_frame s f) \<noteq> 0" by (simp add: unat_eq_0)
  then show ?thesis by simp
qed

lemma move_to_cache_nonempty:
  "time_frame s f \<noteq> [] \<Longrightarrow>
   move_to_cache f s =
     Inr (s\<lparr>cache_frame := insert_upper_bound (f, hd (time_frame s f)) (cache_frame s)\<rparr>)"
  by (cases "time_frame s f") (simp_all add: move_to_cache_def)

lemma insert_upper_bound_Nil: "insert_upper_bound e [] = [e]"
  by (simp add: insert_upper_bound_def)

lemma insert_upper_bound_Cons:
  "insert_upper_bound e (x # xs) =
     (if CmpTimestamp e x then e # x # xs else x # insert_upper_bound e xs)"
  by (simp add: insert_upper_bound_def)

lemma length_insert_upper_bound: "length (insert_upper_bound e xs) = Suc (length xs)"
  by (induction xs) (simp_all add: insert_upper_bound_Nil insert_upper_bound_Cons)

lemma distinct_insert_upper_bound:
  "distinct (map fst (insert_upper_bound e xs)) \<longleftrightarrow>
     fst e \<notin> fst ` set xs \<and> distinct (map fst xs)"
  by (induction xs)
    (auto simp: insert_upper_bound_Nil insert_upper_bound_Cons set_insert_upper_bound)

lemma sorted_insert_upper_bound:
  "sorted (map snd xs) \<Longrightarrow> sorted (map snd (insert_upper_bound e xs))"
proof (induction xs)
  case Nil
  then show ?case by (simp add: insert_upper_bound_Nil)
next
  case (Cons x xs)
  show ?case
  proof (cases "CmpTimestamp e x")
    case True
    then have "snd e \<le> snd x" by (simp add: CmpTimestamp_def)
    moreover from Cons.prems have "\<forall>y \<in> set xs. snd x \<le> snd y" by simp
    ultimately have "\<forall>y \<in> set xs. snd e \<le> snd y" by (meson order_trans)
    with True Cons.prems \<open>snd e \<le> snd x\<close> show ?thesis
      by (simp add: insert_upper_bound_Cons)
  next
    case False
    then have "snd x \<le> snd e" by (simp add: CmpTimestamp_def)
    with False Cons show ?thesis
      by (auto simp: insert_upper_bound_Cons set_insert_upper_bound)
  qed
qed

lemma in_set_tl: "x \<in> set (tl xs) \<Longrightarrow> x \<in> set xs"
  by (cases xs) auto

lemma accessed_simps:
  "current_timestamp (accessed f s) = current_timestamp s + 1"
  "k (accessed f s) = k s"
  "recorded_cnt (accessed f s) = (recorded_cnt s)(f := recorded_cnt s f + 1)"
  "g \<noteq> f \<Longrightarrow> time_frame (accessed f s) g = time_frame s g"
  "g \<noteq> f \<Longrightarrow> first_access (accessed f s) g = first_access s g"
  by (simp_all add: accessed_def Let_def first_access_def)

lemma accessed_lists_inv:
  assumes li: "lists_inv s" and hi: "history_inv s" and ts: "current_timestamp s + 1 \<noteq> 0"
  shows "lists_inv (accessed f s)"
proof -
  from li have dn: "distinct (new_frame s)" and dc: "distinct (map fst (cache_frame s))"
    and nf: "\<And>g. g \<in> set (new_frame s) \<longleftrightarrow> recorded_cnt s g \<noteq> 0 \<and> recorded_cnt s g < k s"
    and cf: "\<And>g. g \<in> fst ` set (cache_frame s) \<longleftrightarrow> recorded_cnt s g \<noteq> 0 \<and> k s \<le> recorded_cnt s g"
    by (simp_all add: lists_inv_def)
  note sc = step_cnt [OF hi ts, of f]
  show ?thesis
  proof (cases "recorded_cnt s f + 1 < k s")
    case True
    with sc(3) have clt: "recorded_cnt s f < k s" by simp
    then have fc: "f \<notin> fst ` set (cache_frame s)" using cf [of f] by (auto simp: not_le)
    from True have nle: "\<not> k s \<le> recorded_cnt s f + 1" by simp
    show ?thesis
    proof (cases "recorded_cnt s f = 0")
      case z: True
      then have "f \<notin> set (new_frame s)" using nf [of f] by simp
      with True z dn dc fc nle sc(2) show ?thesis
        unfolding lists_inv_def accessed_def Let_def
        by (auto simp: nf cf)
    next
      case nz: False
      with clt have "f \<in> set (new_frame s)" using nf [of f] by simp
      with True nz dn dc fc nle sc(2) show ?thesis
        unfolding lists_inv_def accessed_def Let_def
        by (auto simp: nf cf)
    qed
  next
    case False
    then have kle: "k s \<le> recorded_cnt s f + 1" by simp
    have d1: "distinct (removeAll f (new_frame s))" using dn by (simp add: distinct_removeAll)
    have d2: "distinct (map fst (filter (\<lambda>e. fst e \<noteq> f) (cache_frame s)))"
      using dc by (simp add: distinct_map_filter)
    have m: "\<And>g. g \<in> fst ` {x \<in> set (cache_frame s). fst x \<noteq> f} \<longleftrightarrow>
        g \<noteq> f \<and> g \<in> fst ` set (cache_frame s)" by auto
    have nf': "g \<in> set (removeAll f (new_frame s)) \<longleftrightarrow>
        ((recorded_cnt s)(f := recorded_cnt s f + 1)) g \<noteq> 0
        \<and> ((recorded_cnt s)(f := recorded_cnt s f + 1)) g < k s" for g
      using nf [of g] False by (cases "g = f") simp_all
    have cf': "g \<in> fst ` set (insert_upper_bound (f, x) (filter (\<lambda>e. fst e \<noteq> f) (cache_frame s)))
        \<longleftrightarrow> ((recorded_cnt s)(f := recorded_cnt s f + 1)) g \<noteq> 0
        \<and> k s \<le> ((recorded_cnt s)(f := recorded_cnt s f + 1)) g" for g x
      unfolding set_insert_upper_bound image_insert
      using cf [of g] kle sc(2) by (cases "g = f") (simp_all add: m)
    from False d1 d2 show ?thesis
      unfolding lists_inv_def accessed_def Let_def
      by (simp add: distinct_insert_upper_bound m nf cf' sc(2))
  qed
qed

lemma accessed_history_inv:
  assumes hi: "history_inv s" and ts: "current_timestamp s + 1 \<noteq> 0"
  shows "history_inv (accessed f s)"
proof -
  from hi have k0: "k s \<noteq> 0"
    and len: "\<And>g. length (time_frame s g) = unat (min (recorded_cnt s g) (k s))"
    and old: "\<And>g t. t \<in> set (time_frame s g) \<Longrightarrow> t \<le> current_timestamp s"
    and cnt: "\<And>g. recorded_cnt s g \<le> current_timestamp s"
    by (simp_all add: history_inv_def)
  note sc = step_cnt [OF hi ts, of f]
  note st = step_ts [OF ts]
  have l: "length (time_frame (accessed f s) g) = unat (min (recorded_cnt (accessed f s) g) (k s))" for g
  proof (cases "g = f")
    case False
    then show ?thesis by (simp add: accessed_simps len)
  next
    case True
    show ?thesis
    proof (cases "k s < recorded_cnt s f + 1")
      case gt: True
      with sc(1) have "k s \<le> recorded_cnt s f" by (simp add: word_less_nat_alt word_le_nat_alt)
      then have "min (recorded_cnt s f) (k s) = k s" by (rule min_absorb2)
      moreover from gt have "min (recorded_cnt s f + 1) (k s) = k s" by (simp add: min_absorb2)
      ultimately show ?thesis using gt len [of f] True
        by (simp add: accessed_def Let_def)
    next
      case le: False
      then have a: "recorded_cnt s f + 1 \<le> k s" by simp
      with sc(3) have "recorded_cnt s f \<le> k s" by simp
      then have "min (recorded_cnt s f) (k s) = recorded_cnt s f" by (rule min_absorb1)
      moreover from a have "min (recorded_cnt s f + 1) (k s) = recorded_cnt s f + 1"
        by (rule min_absorb1)
      ultimately show ?thesis using le len [of f] True sc(1)
        by (simp add: accessed_def Let_def)
    qed
  qed
  have t: "t \<le> current_timestamp s + 1" if "t \<in> set (time_frame (accessed f s) g)" for g t
  proof -
    from that have "t \<in> set (time_frame s g) \<or> t = current_timestamp s + 1"
      by (cases "g = f") (auto simp: accessed_def Let_def dest: in_set_tl split: if_splits)
    with old [of t g] st(2) show ?thesis by auto
  qed
  have c: "recorded_cnt (accessed f s) g \<le> current_timestamp s + 1" for g
    using cnt [of g] st(2) sc(4) by (cases "g = f") (auto simp: accessed_simps)
  from k0 l t c show ?thesis
    unfolding history_inv_def by (simp add: accessed_simps(1,2))
qed

lemma map_first_access_accessed:
  "f \<notin> set xs \<Longrightarrow> map (first_access (accessed f s)) xs = map (first_access s) xs"
  by (induction xs) (auto simp: accessed_simps)

lemma accessed_order_inv:
  assumes li: "lists_inv s" and hi: "history_inv s" and oi: "order_inv s"
    and ts: "current_timestamp s + 1 \<noteq> 0"
  shows "order_inv (accessed f s)"
proof -
  from li have nf: "\<And>g. g \<in> set (new_frame s) \<longleftrightarrow> recorded_cnt s g \<noteq> 0 \<and> recorded_cnt s g < k s"
    and cf: "\<And>g. g \<in> fst ` set (cache_frame s) \<longleftrightarrow> recorded_cnt s g \<noteq> 0 \<and> k s \<le> recorded_cnt s g"
    by (simp_all add: lists_inv_def)
  from oi have e1: "\<And>e. e \<in> set (cache_frame s) \<Longrightarrow> snd e = first_access s (fst e)"
    and e2: "sorted (map snd (cache_frame s))"
    and e3: "sorted (map (first_access s) (rev (new_frame s)))"
    by (simp_all add: order_inv_def)
  from hi have old: "\<And>g t. t \<in> set (time_frame s g) \<Longrightarrow> t \<le> current_timestamp s"
    by (simp add: history_inv_def)
  note sc = step_cnt [OF hi ts, of f]
  note st = step_ts [OF ts]
  show ?thesis
  proof (cases "recorded_cnt s f + 1 < k s")
    case True
    with sc(3) have clt: "recorded_cnt s f < k s" by simp
    then have fc: "f \<notin> fst ` set (cache_frame s)" using cf [of f] by (auto simp: not_le)
    from True have nk: "\<not> k s < recorded_cnt s f + 1" by simp
    from True have cache: "cache_frame (accessed f s) = cache_frame s"
      by (simp add: accessed_def Let_def)
    have c1: "\<forall>e \<in> set (cache_frame (accessed f s)). snd e = first_access (accessed f s) (fst e)"
    proof
      fix e assume e: "e \<in> set (cache_frame (accessed f s))"
      with cache have es: "e \<in> set (cache_frame s)" by simp
      with fc have "fst e \<noteq> f" by auto
      with e1 [OF es] show "snd e = first_access (accessed f s) (fst e)"
        by (simp add: accessed_simps)
    qed
    have c2: "sorted (map snd (cache_frame (accessed f s)))" using e2 cache by simp
    have c3: "sorted (map (first_access (accessed f s)) (rev (new_frame (accessed f s))))"
    proof (cases "recorded_cnt s f = 0")
      case z: True
      then have fn: "f \<notin> set (new_frame s)" using nf [of f] by simp
      from z have tf: "time_frame s f = []" by (rule untracked_history [OF hi])
      from True z have new: "new_frame (accessed f s) = f # new_frame s"
        by (simp add: accessed_def Let_def)
      from nk tf have fa: "first_access (accessed f s) f = current_timestamp s + 1"
        by (simp add: accessed_def Let_def first_access_def)
      have le: "first_access s g \<le> current_timestamp s + 1" if "g \<in> set (new_frame s)" for g
      proof -
        from that nf [of g] have "recorded_cnt s g \<noteq> 0" by simp
        then have "time_frame s g \<noteq> []" by (rule tracked_history [OF hi])
        then have "hd (time_frame s g) \<in> set (time_frame s g)" by simp
        from old [OF this] st(2) show ?thesis by (simp add: first_access_def)
      qed
      have meq: "map (first_access (accessed f s)) (rev (new_frame s))
          = map (first_access s) (rev (new_frame s))"
        by (rule map_first_access_accessed) (simp add: fn)
      have "sorted (map (first_access (accessed f s)) (rev (new_frame s))
          @ [current_timestamp s + 1])"
        unfolding meq using e3 le by (auto simp: sorted_append)
      then show ?thesis by (simp add: new fa)
    next
      case nz: False
      then have tf: "time_frame s f \<noteq> []" by (rule tracked_history [OF hi])
      from True nz have new: "new_frame (accessed f s) = new_frame s"
        by (simp add: accessed_def Let_def)
      from nk tf have "first_access (accessed f s) f = first_access s f"
        by (simp add: accessed_def Let_def first_access_def)
      then have "first_access (accessed f s) g = first_access s g" for g
        by (cases "g = f") (simp_all add: accessed_simps)
      then have "first_access (accessed f s) = first_access s" by (rule ext)
      with e3 new show ?thesis by simp
    qed
    from c1 c2 c3 show ?thesis by (simp add: order_inv_def)
  next
    case False
    define x where "x = hd (time_frame (accessed f s) f)"
    from False have cache: "cache_frame (accessed f s) =
        insert_upper_bound (f, x) (filter (\<lambda>e. fst e \<noteq> f) (cache_frame s))"
      and new: "new_frame (accessed f s) = removeAll f (new_frame s)"
      by (simp_all add: accessed_def Let_def x_def)
    have c1: "\<forall>e \<in> set (cache_frame (accessed f s)). snd e = first_access (accessed f s) (fst e)"
    proof
      fix e assume "e \<in> set (cache_frame (accessed f s))"
      then consider "e = (f, x)" | "e \<in> set (cache_frame s)" "fst e \<noteq> f"
        by (auto simp: cache set_insert_upper_bound)
      then show "snd e = first_access (accessed f s) (fst e)"
      proof cases
        case 1
        then show ?thesis by (simp add: x_def first_access_def)
      next
        case 2
        with e1 [OF 2(1)] show ?thesis by (simp add: accessed_simps)
      qed
    qed
    have c2: "sorted (map snd (cache_frame (accessed f s)))"
      unfolding cache using e2 by (intro sorted_insert_upper_bound sorted_map_filter)
    have "map (first_access (accessed f s)) (rev (removeAll f (new_frame s)))
        = map (first_access s) (rev (removeAll f (new_frame s)))"
      by (rule map_first_access_accessed) simp
    also have "\<dots> = map (first_access s) (filter ((\<noteq>) f) (rev (new_frame s)))"
      by (simp add: removeAll_filter_not_eq rev_filter)
    finally have c3: "sorted (map (first_access (accessed f s)) (rev (new_frame (accessed f s))))"
      using e3 by (simp add: new sorted_map_filter)
    from c1 c2 c3 show ?thesis by (simp add: order_inv_def)
  qed
qed

lemma card_candidates_le:
  assumes "lists_inv s"
  shows "card (candidates s) \<le> length (new_frame s) + length (cache_frame s)"
proof -
  from assms have "candidates s \<subseteq> set (new_frame s) \<union> fst ` set (cache_frame s)"
    by (auto simp: lists_inv_def candidates_def not_le)
  then have "card (candidates s) \<le> card (set (new_frame s) \<union> fst ` set (cache_frame s))"
    by (intro card_mono) simp_all
  also have "\<dots> \<le> card (set (new_frame s)) + card (fst ` set (cache_frame s))"
    by (rule card_Un_le)
  also have "\<dots> \<le> length (new_frame s) + length (cache_frame s)"
    by (intro add_mono card_length order_trans [OF card_image_le]) simp_all
  finally show ?thesis .
qed

lemma unat_incr:
  fixes c t :: size_t
  assumes "unat c \<le> unat t" "t + 1 \<noteq> 0"
  shows "unat (c + 1) = unat c + 1"
proof -
  from assms(2) have "unat (t + 1) = Suc (unat t)"
    using unatSuc [of t] by (simp add: add.commute)
  then have "unat t + unat (1 :: size_t) < 2 ^ LENGTH(64)"
    using unat_add_lem [of t 1] by simp
  with assms(1) have "unat c + unat (1 :: size_t) < 2 ^ LENGTH(64)" by simp
  then have "unat (c + 1) = unat c + unat (1 :: size_t)" by (simp only: unat_add_lem)
  then show ?thesis by simp
qed

lemma accessed_size_inv:
  assumes li: "lists_inv s" and hi: "history_inv s" and si: "size_inv s" and ti: "tracked_inv s"
    and ts: "current_timestamp s + 1 \<noteq> 0"
  shows "size_inv (accessed f s)"
proof (cases "recorded_cnt s f = 0")
  case True
  then have fc: "f \<notin> candidates s" by (simp add: candidates_def)
  from True have "candidates (accessed f s) = insert f (candidates s)"
    by (auto simp: candidates_def accessed_def Let_def)
  with fc finite_candidates [OF li] have c: "card (candidates (accessed f s)) = card (candidates s) + 1"
    by simp
  from si card_candidates_le [OF li] ti have "unat (curr_size s) \<le> unat (current_timestamp s)"
    by (simp add: size_inv_def tracked_inv_def)
  from unat_incr [OF this ts] True si c show ?thesis
    by (simp add: size_inv_def) (simp add: accessed_def Let_def)
next
  case False
  with step_cnt(2) [OF hi ts, of f] have "candidates (accessed f s) = candidates s"
    by (auto simp: candidates_def accessed_def Let_def)
  with False si show ?thesis
    by (simp add: size_inv_def) (simp add: accessed_def Let_def)
qed

lemma accessed_tracked_inv:
  assumes li: "lists_inv s" and hi: "history_inv s" and ti: "tracked_inv s"
    and ts: "current_timestamp s + 1 \<noteq> 0"
  shows "tracked_inv (accessed f s)"
proof -
  from ti have b: "length (new_frame s) + length (cache_frame s) \<le> unat (current_timestamp s)"
    by (simp add: tracked_inv_def)
  have a1: "length (removeAll f (new_frame s)) \<le> length (new_frame s)"
    by (simp add: removeAll_filter_not_eq)
  have a2: "length (filter (\<lambda>e. fst e \<noteq> f) (cache_frame s)) \<le> length (cache_frame s)"
    by simp
  from a1 a2 have a3: "length (removeAll f (new_frame s))
      + length (filter (\<lambda>e. fst e \<noteq> f) (cache_frame s))
      \<le> length (new_frame s) + length (cache_frame s)"
    by (rule add_mono)
  have "length (new_frame (accessed f s)) + length (cache_frame (accessed f s))
      \<le> length (new_frame s) + length (cache_frame s) + 1"
    using a3 by (simp add: accessed_def Let_def length_insert_upper_bound)
  with b step_ts(1) [OF ts] show ?thesis
    by (simp add: tracked_inv_def accessed_simps)
qed

lemma accessed_inv:
  assumes "replacer_inv s" "current_timestamp s + 1 \<noteq> 0"
  shows "replacer_inv (accessed f s)"
  using assms
  by (simp add: replacer_inv_def accessed_lists_inv accessed_history_inv accessed_order_inv
      accessed_size_inv accessed_tracked_inv)

lemma SetEvictable_preserves_inv:
  assumes inv: "replacer_inv s"
  shows "replacer_inv (SetEvictable f b s)"
proof (cases "recorded_cnt s f = 0")
  case True
  with inv show ?thesis by (simp add: SetEvictable_def)
next
  case False
  from inv have li: "lists_inv s" and si: "size_inv s" and ti: "tracked_inv s"
    by (simp_all add: replacer_inv_def)
  let ?s' = "SetEvictable f b s"
  have same: "new_frame ?s' = new_frame s" "cache_frame ?s' = cache_frame s"
    "recorded_cnt ?s' = recorded_cnt s" "k ?s' = k s" "time_frame ?s' = time_frame s"
    "current_timestamp ?s' = current_timestamp s"
    by (simp_all add: SetEvictable_def Let_def)
  then have fa: "first_access ?s' = first_access s" by (simp add: first_access_def fun_eq_iff)
  from inv same fa have four: "lists_inv ?s'" "history_inv ?s'" "order_inv ?s'" "tracked_inv ?s'"
    by (simp_all add: replacer_inv_def lists_inv_def history_inv_def order_inv_def tracked_inv_def)
  have "size_inv ?s'"
  proof (cases "evictable s f")
    case ev: True
    show ?thesis
    proof (cases b)
      case True
      with ev have "evictable ?s' = evictable s" "curr_size ?s' = curr_size s"
        by (auto simp: SetEvictable_def Let_def fun_eq_iff)
      with same si show ?thesis by (simp add: size_inv_def candidates_def)
    next
      case nb: False
      with ev False have cs: "curr_size ?s' = curr_size s - 1"
        and c: "candidates ?s' = candidates s - {f}"
        by (auto simp: SetEvictable_def Let_def candidates_def)
      from ev False have "f \<in> candidates s" by (simp add: candidates_def)
      with finite_candidates [OF li] have pos: "0 < card (candidates s)"
        and c': "card (candidates s - {f}) = card (candidates s) - 1"
        by (auto simp: card_gt_0_iff)
      from pos si have "curr_size s \<noteq> 0" by (auto simp: size_inv_def)
      then have "unat (curr_size s - 1) = unat (curr_size s) - 1" by (simp add: unat_minus_one)
      with cs c c' si show ?thesis by (simp add: size_inv_def)
    qed
  next
    case nev: False
    show ?thesis
    proof (cases b)
      case False
      with nev have "evictable ?s' = evictable s" "curr_size ?s' = curr_size s"
        by (auto simp: SetEvictable_def Let_def fun_eq_iff)
      with same si show ?thesis by (simp add: size_inv_def candidates_def)
    next
      case True
      with nev False have cs: "curr_size ?s' = curr_size s + 1"
        and c: "candidates ?s' = insert f (candidates s)"
        by (auto simp: SetEvictable_def Let_def candidates_def)
      from nev have "f \<notin> candidates s" by (simp add: candidates_def)
      with finite_candidates [OF li] have c': "card (insert f (candidates s)) = card (candidates s) + 1"
        by simp
      from card_candidates_le [OF four(1)] four(4) c c' same
      have "card (candidates s) + 1 \<le> unat (current_timestamp s)"
        by (simp add: tracked_inv_def)
      with si have lt: "unat (curr_size s) < unat (current_timestamp s)" by (simp add: size_inv_def)
      have "unat (curr_size s) + unat (1 :: size_t) < 2 ^ LENGTH(64)"
        using lt unsigned_less [of "current_timestamp s", where 'a = nat] by simp
      then have "unat (curr_size s + 1) = unat (curr_size s) + unat (1 :: size_t)"
        by (simp only: unat_add_lem)
      with cs c c' si show ?thesis by (simp add: size_inv_def)
    qed
  qed
  with four show ?thesis by (simp add: replacer_inv_def)
qed

lemma RecordAccess_result:
  assumes li: "lists_inv s" and hi: "history_inv s"
    and ts: "current_timestamp s + 1 \<noteq> 0"
  shows "RecordAccess f s =
     (if f > sint (ucast (replacer_size s) :: 32 word) then Inl InvalidFrame
      else if recorded_cnt s f = 0 \<and> curr_size s = max_size s then Inl SelfDeadlock
      else Inr (accessed f s))"
proof -
  from li have dn: "distinct (new_frame s)" and dc: "distinct (map fst (cache_frame s))"
    and nf: "f \<in> set (new_frame s) \<longleftrightarrow> recorded_cnt s f \<noteq> 0 \<and> recorded_cnt s f < k s"
    and cf: "f \<in> fst ` set (cache_frame s) \<longleftrightarrow> recorded_cnt s f \<noteq> 0 \<and> k s \<le> recorded_cnt s f"
    by (simp_all add: lists_inv_def)
  from hi have k0: "k s \<noteq> 0" by (simp add: history_inv_def)
  note sc = step_cnt [OF hi ts, of f]
  show ?thesis
  proof (cases "recorded_cnt s f = 0")
    case True
    then have tf: "time_frame s f = []" by (rule untracked_history [OF hi])
    from True nf cf have out: "f \<notin> set (new_frame s)" "f \<notin> fst ` set (cache_frame s)" by simp_all
    then have flt: "filter (\<lambda>e. fst e \<noteq> f) (cache_frame s) = cache_frame s"
      by (simp add: filter_absent)
    show ?thesis
    proof (cases "k s = 1")
      case k1: True
      with True tf out flt show ?thesis
        by (simp add: RecordAccess_def Let_def move_to_cache_nonempty accessed_def)
    next
      case False
      with k0 have "1 < k s" by (metis word_one_not_greater not_less_iff_gr_or_eq)
      with True tf out False k0 show ?thesis
        by (simp add: RecordAccess_def Let_def accessed_def)
    qed
  next
    case False
    then have n1: "recorded_cnt s f + 1 \<noteq> 1" by simp
    from False have tf: "time_frame s f \<noteq> []" by (rule tracked_history [OF hi])
    consider (lt) "recorded_cnt s f + 1 < k s" | (eq) "recorded_cnt s f + 1 = k s"
      | (gt) "k s < recorded_cnt s f + 1" by (metis not_less_iff_gr_or_eq)
    then show ?thesis
    proof cases
      case lt
      then have ne: "recorded_cnt s f + 1 \<noteq> k s" "\<not> k s < recorded_cnt s f + 1" by auto
      with False n1 lt show ?thesis
        by (simp add: RecordAccess_def Let_def accessed_def)
    next
      case eq
      with sc(3) have "recorded_cnt s f < k s" by simp
      with False nf cf have inn: "f \<in> set (new_frame s)" "f \<notin> fst ` set (cache_frame s)"
        by auto
      then have flt: "filter (\<lambda>e. fst e \<noteq> f) (cache_frame s) = cache_frame s"
        by (simp add: filter_absent)
      from dn have rm: "remove1 f (new_frame s) = removeAll f (new_frame s)"
        by (rule removeAll_remove1)
      from False n1 eq inn flt rm tf show ?thesis
        by (simp add: RecordAccess_def Let_def move_to_cache_nonempty accessed_def)
    next
      case gt
      with sc(1) have "k s \<le> recorded_cnt s f"
        by (simp add: word_less_nat_alt word_le_nat_alt)
      with False nf cf have inn: "f \<notin> set (new_frame s)" "f \<in> fst ` set (cache_frame s)"
        by auto
      from dc have er: "erase_frame f (cache_frame s) = filter (\<lambda>e. fst e \<noteq> f) (cache_frame s)"
        by (rule erase_frame_filter)
      from tf have tl: "tl (time_frame s f @ [current_timestamp s + 1]) \<noteq> []"
        by (cases "time_frame s f") simp_all
      from gt have ne: "recorded_cnt s f + 1 \<noteq> k s" "\<not> recorded_cnt s f + 1 < k s" by auto
      from False n1 gt ne inn er tl show ?thesis
        by (simp add: RecordAccess_def Let_def move_to_cache_nonempty accessed_def)
    qed
  qed
qed

lemma RecordAccess_preserves_inv:
  assumes inv: "replacer_inv s" and ts: "current_timestamp s + 1 \<noteq> 0"
    and ra: "RecordAccess f s = Inr s'"
  shows "replacer_inv s'"
proof -
  from inv have "lists_inv s" "history_inv s" by (simp_all add: replacer_inv_def)
  from RecordAccess_result [OF this ts, of f] ra have "s' = accessed f s"
    by (simp split: if_splits)
  with accessed_inv [OF inv ts] show ?thesis by simp
qed

lemma RecordAccess_timestamp:
  assumes inv: "replacer_inv s" and ts: "current_timestamp s + 1 \<noteq> 0"
    and ra: "RecordAccess f s = Inr s'"
  shows "current_timestamp s' = current_timestamp s + 1"
proof -
  from inv have "lists_inv s" "history_inv s" by (simp_all add: replacer_inv_def)
  from RecordAccess_result [OF this ts, of f] ra have "s' = accessed f s"
    by (simp split: if_splits)
  then show ?thesis by (simp add: accessed_simps)
qed

lemma Remove_result:
  assumes inv: "replacer_inv s"
  shows "Remove f s =
     (if f > sint (ucast (replacer_size s) :: 32 word) then Inl InvalidFrame
      else if recorded_cnt s f = 0 then Inr s
      else if \<not> evictable s f then Inl NonEvictable
      else Inr (untrack f s))"
proof -
  from inv have li: "lists_inv s" by (simp add: replacer_inv_def)
  then have dn: "distinct (new_frame s)" and dc: "distinct (map fst (cache_frame s))"
    and nf: "f \<in> set (new_frame s) \<longleftrightarrow> recorded_cnt s f \<noteq> 0 \<and> recorded_cnt s f < k s"
    and cf: "f \<in> fst ` set (cache_frame s) \<longleftrightarrow> recorded_cnt s f \<noteq> 0 \<and> k s \<le> recorded_cnt s f"
    by (simp_all add: lists_inv_def)
  show ?thesis
  proof (cases "recorded_cnt s f = 0")
    case True
    then show ?thesis by (simp add: Remove_def)
  next
    case False
    show ?thesis
    proof (cases "recorded_cnt s f < k s")
      case True
      with False nf have fn: "f \<in> set (new_frame s)" by simp
      from dn have "remove1 f (new_frame s) = removeAll f (new_frame s)"
        by (rule removeAll_remove1)
      moreover from new_cache_disjoint(1) [OF li fn]
      have "filter (\<lambda>e. fst e \<noteq> f) (cache_frame s) = cache_frame s" by (rule filter_absent)
      ultimately show ?thesis using False True fn
        by (simp add: Remove_def Let_def untrack_def)
    next
      case nl: False
      with False cf have fc: "f \<in> fst ` set (cache_frame s)" by simp
      from dc have "erase_frame f (cache_frame s) = filter (\<lambda>e. fst e \<noteq> f) (cache_frame s)"
        by (rule erase_frame_filter)
      moreover from new_cache_disjoint(2) [OF li fc]
      have "removeAll f (new_frame s) = new_frame s" by simp
      ultimately show ?thesis using False nl fc
        by (simp add: Remove_def Let_def untrack_def)
    qed
  qed
qed

lemma Remove_preserves_inv:
  assumes inv: "replacer_inv s" and r: "Remove f s = Inr s'"
  shows "replacer_inv s'"
proof (cases "recorded_cnt s f = 0")
  case True
  with r Remove_result [OF inv, of f] have "s' = s" by (simp split: if_splits)
  with inv show ?thesis by simp
next
  case False
  with r Remove_result [OF inv, of f] have "evictable s f" "s' = untrack f s"
    by (simp_all split: if_splits)
  with False untrack_inv [OF inv, of f] show ?thesis by (simp add: candidates_def)
qed

lemma replacer_step_preserves_inv:
  assumes inv: "replacer_inv s" and ts: "current_timestamp s + 1 \<noteq> 0"
    and c: "replacer_step c s = Inr s'"
  shows "replacer_inv s'"
proof (cases c)
  case (DoRecordAccess f)
  with c have "RecordAccess f s = Inr s'" by simp
  from RecordAccess_preserves_inv [OF inv ts this] show ?thesis .
next
  case (DoSetEvictable f b)
  with c SetEvictable_preserves_inv [OF inv, of f b] show ?thesis by auto
next
  case DoEvict
  with c Evict_preserves_inv [OF inv] show ?thesis by auto
next
  case (DoRemove f)
  with c have "Remove f s = Inr s'" by simp
  from Remove_preserves_inv [OF inv this] show ?thesis .
qed

lemma Evict_timestamp: "current_timestamp (snd (Evict s)) = current_timestamp s"
  by (simp add: Evict_def split: option.splits)

lemma SetEvictable_timestamp: "current_timestamp (SetEvictable f b s) = current_timestamp s"
  by (simp add: SetEvictable_def Let_def)

lemma Remove_timestamp: "Remove f s = Inr s' \<Longrightarrow> current_timestamp s' = current_timestamp s"
  by (auto simp: Remove_def Let_def split: if_splits)

lemma replacer_step_timestamp:
  assumes inv: "replacer_inv s" and ts: "current_timestamp s + 1 \<noteq> 0"
    and c: "replacer_step c s = Inr s'"
  shows "unat (current_timestamp s') \<le> unat (current_timestamp s) + 1"
proof (cases c)
  case (DoRecordAccess f)
  with c have ra: "RecordAccess f s = Inr s'" by simp
  from RecordAccess_timestamp [OF inv ts ra] step_ts(1) [OF ts] show ?thesis by simp
next
  case (DoSetEvictable f b)
  with c show ?thesis by (auto simp: SetEvictable_timestamp)
next
  case DoEvict
  with c show ?thesis by (auto simp: Evict_timestamp)
next
  case (DoRemove f)
  with c have "Remove f s = Inr s'" by simp
  from Remove_timestamp [OF this] show ?thesis by simp
qed

lemma replacer_run_preserves_inv:
  assumes "replacer_inv s" "unat (current_timestamp s) + length cs < 2 ^ 64"
    and "replacer_run cs s = Inr s'"
  shows "replacer_inv s'"
  using assms
proof (induction cs arbitrary: s)
  case Nil
  then show ?case by simp
next
  case (Cons c cs)
  from Cons.prems(3) obtain s1 where c: "replacer_step c s = Inr s1" and r: "replacer_run cs s1 = Inr s'"
    by (auto split: sum.splits)
  from Cons.prems(2) have "unat (current_timestamp s) + unat (1 :: size_t) < 2 ^ LENGTH(64)"
    by simp
  then have "unat (current_timestamp s + 1) = unat (current_timestamp s) + unat (1 :: size_t)"
    by (simp only: unat_add_lem)
  then have ts: "current_timestamp s + 1 \<noteq> 0" by (metis add_is_0 unat_0 unat_1 zero_neq_one)
  from replacer_step_preserves_inv [OF Cons.prems(1) ts c] have i1: "replacer_inv s1" .
  from replacer_step_timestamp [OF Cons.prems(1) ts c] Cons.prems(2)
  have "unat (current_timestamp s1) + length cs < 2 ^ 64" by simp
  from Cons.IH [OF i1 this r] show ?case .
qed

text \<open>
  The representation invariant holds in every state that a replacer constructed with
  \<open>k > 0\<close> reaches through fewer than \<open>2^64\<close> calls of \<open>RecordAccess\<close>, \<open>SetEvictable\<close>,
  \<open>Evict\<close> and \<open>Remove\<close> that all return (the timestamp, a \<open>size_t\<close>, is incremented once per
  \<open>RecordAccess\<close>).
\<close>

theorem replacer_inv_reachable:
  assumes "k' \<noteq> 0" "length cs < 2 ^ 64" "replacer_run cs (new_LRUKReplacer n k') = Inr s"
  shows "replacer_inv s"
proof -
  have "unat (current_timestamp (new_LRUKReplacer n k')) + length cs < 2 ^ 64"
    using assms(2) by (simp add: new_LRUKReplacer_def)
  from replacer_run_preserves_inv [OF new_replacer_inv [OF assms(1)] this assms(3)] show ?thesis .
qed

theorem replacer_inv_reachable_witness:
  "replacer_run [DoRecordAccess 0, DoRecordAccess 1, DoRecordAccess 0] (new_LRUKReplacer 7 2)
     = Inr scenario3
   \<and> replacer_inv scenario3"
proof -
  have r: "replacer_run [DoRecordAccess 0, DoRecordAccess 1, DoRecordAccess 0]
      (new_LRUKReplacer 7 2) = Inr scenario3"
    by (simp add: RecordAccess_def new_LRUKReplacer_def scenario3_def Let_def move_to_cache_def
        insert_upper_bound_def fun_upd_twist)
  from replacer_inv_reachable [of 2 "[DoRecordAccess 0, DoRecordAccess 1, DoRecordAccess 0]"
      7 scenario3] r
  show ?thesis by simp
qed

subsection \<open>Buffer pool: UnpinPage\<close>

lemma UnpinPage_unmapped:
  "pid = INVALID_PAGE_ID \<or> page_table bpm pid = None \<Longrightarrow> UnpinPage pid dirty bpm = Some (False, bpm)"
  by (auto simp: UnpinPage_def)

lemma UnpinPage_unpinned:
  assumes "pid \<noteq> INVALID_PAGE_ID" "page_table bpm pid = Some (int f)" "f < length (pages bpm)"
    "pin_count (pages bpm ! f) = 0"
  shows "UnpinPage pid dirty bpm
     = Some (False, bpm\<lparr>pages := (pages bpm)[f := (pages bpm ! f)\<lparr>is_dirty := dirty \<or> is_dirty (pages bpm ! f)\<rparr>]\<rparr>)"
  using assms by (simp add: UnpinPage_def Let_def)

lemma UnpinPage_pinned:
  assumes "pid \<noteq> INVALID_PAGE_ID" "page_table bpm pid = Some (int f)" "f < length (pages bpm)"
    "pin_count (pages bpm ! f) \<noteq> 0"
  shows "UnpinPage pid dirty bpm
     = Some (True, bpm\<lparr>pages := (pages bpm)[f := (pages bpm ! f)
                            \<lparr>is_dirty := dirty \<or> is_dirty (pages bpm ! f),
                             pin_count := pin_count (pages bpm ! f) - 1\<rparr>],
                       replacer := (if pin_count (pages bpm ! f) = 1
                                    then SetEvictable (int f) True (replacer bpm)
                                    else replacer bpm)\<rparr>)"
  using assms by (simp add: UnpinPage_def Let_def)

lemma SetEvictable_marks:
  "recorded_cnt r f \<noteq> 0 \<Longrightarrow> evictable (SetEvictable f True r) f"
  by (simp add: SetEvictable_def Let_def)

text \<open>
  C7, amended.  \<open>UnpinPage\<close> returns false and leaves the pool as it is when the page
  identifier is invalid or unmapped.  When the page is mapped with pin count 0 it returns
  false, and the only change is that the dirty argument is ORed into the page's dirty flag.
  Otherwise it returns true, ORs the dirty argument into the dirty flag, decrements the pin
  count, and calls \<open>SetEvictable(frame, true)\<close> on the replacer exactly when the pin count
  has reached 0 (which marks the frame evictable when the replacer tracks it); nothing else
  of the pool changes.
\<close>

theorem unpin_page_contract:
  "(pid = INVALID_PAGE_ID \<or> page_table bpm pid = None
      \<longrightarrow> UnpinPage pid dirty bpm = Some (False, bpm))
   \<and> (pid \<noteq> INVALID_PAGE_ID \<and> page_table bpm pid = Some (int f) \<and> f < length (pages bpm)
        \<and> pin_count (pages bpm ! f) = 0
      \<longrightarrow> UnpinPage pid dirty bpm
           = Some (False, bpm\<lparr>pages := (pages bpm)[f := (pages bpm ! f)
                                  \<lparr>is_dirty := dirty \<or> is_dirty (pages bpm ! f)\<rparr>]\<rparr>))
   \<and> (pid \<noteq> INVALID_PAGE_ID \<and> page_table bpm pid = Some (int f) \<and> f < length (pages bpm)
        \<and> pin_count (pages bpm ! f) \<noteq> 0
      \<longrightarrow> (\<exists>bpm'. UnpinPage pid dirty bpm = Some (True, bpm')
             \<and> bpm' = bpm\<lparr>pages := (pages bpm)[f := (pages bpm ! f)
                              \<lparr>is_dirty := dirty \<or> is_dirty (pages bpm ! f),
                               pin_count := pin_count (pages bpm ! f) - 1\<rparr>],
                           replacer := replacer bpm'\<rparr>
             \<and> (pin_count (pages bpm ! f) = 1
                   \<longrightarrow> replacer bpm' = SetEvictable (int f) True (replacer bpm)
                       \<and> (recorded_cnt (replacer bpm) (int f) \<noteq> 0
                            \<longrightarrow> evictable (replacer bpm') (int f)))
             \<and> (pin_count (pages bpm ! f) \<noteq> 1 \<longrightarrow> replacer bpm' = replacer bpm)))"
proof (intro conjI impI)
  assume "pid = INVALID_PAGE_ID \<or> page_table bpm pid = None"
  then show "UnpinPage pid dirty bpm = Some (False, bpm)" by (rule UnpinPage_unmapped)
next
  assume "pid \<noteq> INVALID_PAGE_ID \<and> page_table bpm pid = Some (int f) \<and> f < length (pages bpm)
        \<and> pin_count (pages bpm ! f) = 0"
  then show "UnpinPage pid dirty bpm
           = Some (False, bpm\<lparr>pages := (pages bpm)[f := (pages bpm ! f)
                                  \<lparr>is_dirty := dirty \<or> is_dirty (pages bpm ! f)\<rparr>]\<rparr>)"
    by (simp add: UnpinPage_unpinned)
next
  assume a: "pid \<noteq> INVALID_PAGE_ID \<and> page_table bpm pid = Some (int f) \<and> f < length (pages bpm)
        \<and> pin_count (pages bpm ! f) \<noteq> 0"
  then have "UnpinPage pid dirty bpm
     = Some (True, bpm\<lparr>pages := (pages bpm)[f := (pages bpm ! f)
                            \<lparr>is_dirty := dirty \<or> is_dirty (pages bpm ! f),
                             pin_count := pin_count (pages bpm ! f) - 1\<rparr>],
                       replacer := (if pin_count (pages bpm ! f) = 1
                                    then SetEvictable (int f) True (replacer bpm)
                                    else replacer bpm)\<rparr>)"
    by (simp add: UnpinPage_pinned)
  then show "\<exists>bpm'. UnpinPage pid dirty bpm = Some (True, bpm')
             \<and> bpm' = bpm\<lparr>pages := (pages bpm)[f := (pages bpm ! f)
                              \<lparr>is_dirty := dirty \<or> is_dirty (pages bpm ! f),
                               pin_count := pin_count (pages bpm ! f) - 1\<rparr>],
                           replacer := replacer bpm'\<rparr>
             \<and> (pin_count (pages bpm ! f) = 1
                   \<longrightarrow> replacer bpm' = SetEvictable (int f) True (replacer bpm)
                       \<and> (recorded_cnt (replacer bpm) (int f) \<noteq> 0
                            \<longrightarrow> evictable (replacer bpm') (int f)))
             \<and> (pin_count (pages bpm ! f) \<noteq> 1 \<longrightarrow> replacer bpm' = replacer bpm)"
    by (simp add: SetEvictable_marks)
qed

text \<open>
  C7, as stated, fails: on a mapped page with pin count 0 and a clean dirty flag,
  \<open>UnpinPage(5, true)\<close> returns false and sets the dirty flag, so the pool is changed.
\<close>

theorem unpin_unpinned_page_sets_dirty:
  "fst (the (UnpinPage 5 True one_frame_pool)) = False
   \<and> pin_count (pages one_frame_pool ! 0) = 0
   \<and> \<not> is_dirty (pages one_frame_pool ! 0)
   \<and> is_dirty (pages (snd (the (UnpinPage 5 True one_frame_pool))) ! 0)
   \<and> snd (the (UnpinPage 5 True one_frame_pool)) \<noteq> one_frame_pool"
proof -
  have u: "UnpinPage 5 True one_frame_pool
      = Some (False, one_frame_pool\<lparr>pages := [\<lparr>data = [], page_id = 5, pin_count = 0, is_dirty = True\<rparr>]\<rparr>)"
    by (simp add: UnpinPage_def one_frame_pool_def INVALID_PAGE_ID_def Let_def)
  have "pages (one_frame_pool\<lparr>pages := [\<lparr>data = [], page_id = 5, pin_count = 0, is_dirty = True\<rparr>]\<rparr>)
      \<noteq> pages one_frame_pool"
    by (simp add: one_frame_pool_def)
  then have "one_frame_pool\<lparr>pages := [\<lparr>data = [], page_id = 5, pin_count = 0, is_dirty = True\<rparr>]\<rparr>
      \<noteq> one_frame_pool" by metis
  then show ?thesis
    by (simp add: u) (simp add: one_frame_pool_def)
qed


theorem unpin_page_contract_witness:
  "UnpinPage 9 True one_frame_pool = Some (False, one_frame_pool)
   \<and> UnpinPage 5 True one_frame_pool
       = Some (False, one_frame_pool\<lparr>pages := [\<lparr>data = [], page_id = 5, pin_count = 0, is_dirty = True\<rparr>]\<rparr>)
   \<and> fst (the (UnpinPage 5 True (pinned_pool 1)))
   \<and> pages (snd (the (UnpinPage 5 True (pinned_pool 1))))
       = [\<lparr>data = [], page_id = 5, pin_count = 0, is_dirty = True\<rparr>]
   \<and> evictable (replacer (snd (the (UnpinPage 5 True (pinned_pool 1))))) 0
   \<and> fst (the (UnpinPage 5 False (pinned_pool 2)))
   \<and> replacer (snd (the (UnpinPage 5 False (pinned_pool 2)))) = replacer (pinned_pool 2)"
proof -
  have a: "page_table one_frame_pool 9 = None" by (simp add: one_frame_pool_def)
  have b: "(5::int) \<noteq> INVALID_PAGE_ID" "page_table one_frame_pool 5 = Some (int 0)"
    "0 < length (pages one_frame_pool)" "pin_count (pages one_frame_pool ! 0) = 0"
    "pages one_frame_pool ! 0 = \<lparr>data = [], page_id = 5, pin_count = 0, is_dirty = False\<rparr>"
    by (simp_all add: one_frame_pool_def INVALID_PAGE_ID_def)
  have c: "page_table (pinned_pool n) 5 = Some (int 0)"
    "0 < length (pages (pinned_pool n))" "pin_count (pages (pinned_pool n) ! 0) = n"
    "pages (pinned_pool n) ! 0 = \<lparr>data = [], page_id = 5, pin_count = n, is_dirty = False\<rparr>"
    "pages (pinned_pool n) = [\<lparr>data = [], page_id = 5, pin_count = n, is_dirty = False\<rparr>]" for n
    by (simp_all add: pinned_pool_def)
  have d: "recorded_cnt (replacer (pinned_pool 1)) (int 0) \<noteq> 0"
    by (simp add: pinned_pool_def SetEvictable_def RecordAccess_def new_LRUKReplacer_def Let_def)
  from unpin_page_contract [of 9 one_frame_pool True 0] a
  have 1: "UnpinPage 9 True one_frame_pool = Some (False, one_frame_pool)" by simp
  from unpin_page_contract [of 5 one_frame_pool True 0] b
  have 2: "UnpinPage 5 True one_frame_pool
       = Some (False, one_frame_pool\<lparr>pages := [\<lparr>data = [], page_id = 5, pin_count = 0, is_dirty = True\<rparr>]\<rparr>)"
    by (simp add: one_frame_pool_def)
  from unpin_page_contract [of 5 "pinned_pool 1" True 0] b(1) c [of 1] d
  obtain bpm' where 3: "UnpinPage 5 True (pinned_pool 1) = Some (True, bpm')"
    "bpm' = (pinned_pool 1)\<lparr>pages := (pages (pinned_pool 1))[0 := (pages (pinned_pool 1) ! 0)
                              \<lparr>is_dirty := True \<or> is_dirty (pages (pinned_pool 1) ! 0),
                               pin_count := pin_count (pages (pinned_pool 1) ! 0) - 1\<rparr>],
                           replacer := replacer bpm'\<rparr>"
    "evictable (replacer bpm') (int 0)"
    by auto
  have p3: "pages bpm' = [\<lparr>data = [], page_id = 5, pin_count = 0, is_dirty = True\<rparr>]"
    by (subst 3(2)) (simp add: c)
  from unpin_page_contract [of 5 "pinned_pool 2" False 0] b(1) c [of 2]
  obtain bpm'' where 4: "UnpinPage 5 False (pinned_pool 2) = Some (True, bpm'')"
    "replacer bpm'' = replacer (pinned_pool 2)"
    by auto
  from 1 2 3(1,3) p3 4 show ?thesis by simp
qed


subsection \<open>Page guards\<close>

lemma guard_Drop_null:
  "\<not> holds_pin g \<Longrightarrow> guard_Drop g w = Some (g\<lparr>guard_bpm := None, guard_page := None\<rparr>, w)"
  by (cases "guard_bpm g"; cases "guard_page g") (simp_all add: guard_Drop_def holds_pin_def)

lemma guard_Drop_result:
  assumes "guard_Drop g w = Some (g', w')"
  shows "g' = g\<lparr>guard_bpm := None, guard_page := None\<rparr>"
    and "\<not> holds_pin g \<Longrightarrow> w' = w"
    and "holds_pin g \<Longrightarrow> released_frames w' = add_mset (the (guard_page g)) (released_frames w)"
    and "holds_pin g \<Longrightarrow> length (unpin_calls w') = Suc (length (unpin_calls w))"
  using assms
  by (cases "guard_bpm g"; cases "guard_page g";
      auto simp: guard_Drop_def holds_pin_def released_frames_def split: if_splits option.splits)+

lemma not_holds_after_Drop: "\<not> holds_pin (g\<lparr>guard_bpm := None, guard_page := None\<rparr>)"
  by (simp add: holds_pin_def)

lemma guard_move_props:
  "holds_pin (fst (guard_move g)) = holds_pin g"
  "guard_page (fst (guard_move g)) = guard_page g"
  "\<not> holds_pin (snd (guard_move g))"
  "guard_bpm (snd (guard_move g)) = None" "guard_page (snd (guard_move g)) = None"
  by (simp_all add: guard_move_def holds_pin_def)

lemma held_frames_update:
  assumes "i < length gs"
  shows "held_frames (gs[i := g]) + (if holds_pin (gs ! i) then {#the (guard_page (gs ! i))#} else {#})
       = held_frames gs + (if holds_pin g then {#the (guard_page g)#} else {#})"
proof -
  from assms have "gs ! i \<in># mset gs" by simp
  then obtain M where M: "mset gs = add_mset (gs ! i) M" by (meson multi_member_split)
  from assms have "mset (gs[i := g]) = add_mset g (mset gs - {#gs ! i#})" by (rule mset_update)
  with M have "mset (gs[i := g]) = add_mset g M" by simp
  with M show ?thesis by (simp add: held_frames_def)
qed

lemma held_frames_update_same:
  "i < length gs \<Longrightarrow> holds_pin g = holds_pin (gs ! i) \<Longrightarrow> guard_page g = guard_page (gs ! i)
     \<Longrightarrow> held_frames (gs[i := g]) = held_frames gs"
  using held_frames_update [of i gs g] by (auto split: if_splits)

lemma held_frames_update_null:
  "i < length gs \<Longrightarrow> \<not> holds_pin g
     \<Longrightarrow> held_frames (gs[i := g]) + (if holds_pin (gs ! i) then {#the (guard_page (gs ! i))#} else {#})
         = held_frames gs"
  using held_frames_update [of i gs g] by simp

lemma held_frames_append: "held_frames (gs @ [g]) = held_frames gs + (if holds_pin g then {#the (guard_page g)#} else {#})"
  by (simp add: held_frames_def)


lemma held_frames_transfer:
  assumes i: "i < length gs1" and j: "j < length gs1" and null: "\<not> holds_pin (gs1 ! i)"
  shows "held_frames ((gs1[i := fst (guard_move (gs1 ! j))])
            [j := ((gs1[i := fst (guard_move (gs1 ! j))]) ! j)\<lparr>guard_page := None, guard_bpm := None\<rparr>])
         = held_frames gs1"
proof (cases "i = j")
  case True
  have "\<not> holds_pin (fst (guard_move (gs1 ! j)))" using null True by (simp add: guard_move_props)
  then have n: "\<not> holds_pin ((fst (guard_move (gs1 ! j)))\<lparr>guard_page := None, guard_bpm := None\<rparr>)"
    by (simp add: holds_pin_def)
  from True i have "(gs1[i := fst (guard_move (gs1 ! j))])
            [j := ((gs1[i := fst (guard_move (gs1 ! j))]) ! j)\<lparr>guard_page := None, guard_bpm := None\<rparr>]
        = gs1[i := (fst (guard_move (gs1 ! j)))\<lparr>guard_page := None, guard_bpm := None\<rparr>]"
    by simp
  moreover have "held_frames (gs1[i := (fst (guard_move (gs1 ! j)))\<lparr>guard_page := None, guard_bpm := None\<rparr>])
        = held_frames gs1"
    using held_frames_update_null [OF i n] null by simp
  ultimately show ?thesis by simp
next
  case False
  let ?gs2 = "gs1[i := fst (guard_move (gs1 ! j))]"
  have j2: "j < length ?gs2" using j by simp
  have at_j: "?gs2 ! j = gs1 ! j" using False by simp
  have n: "\<not> holds_pin ((gs1 ! j)\<lparr>guard_page := None, guard_bpm := None\<rparr>)"
    by (simp add: holds_pin_def)
  have "held_frames (?gs2[j := (gs1 ! j)\<lparr>guard_page := None, guard_bpm := None\<rparr>])
          + (if holds_pin (gs1 ! j) then {#the (guard_page (gs1 ! j))#} else {#})
        = held_frames ?gs2"
    using held_frames_update_null [OF j2 n] unfolding at_j .
  moreover have "held_frames ?gs2
        = held_frames gs1 + (if holds_pin (gs1 ! j) then {#the (guard_page (gs1 ! j))#} else {#})"
    using held_frames_update [OF i, of "fst (guard_move (gs1 ! j))"] null
    by (simp add: guard_move_props)
  ultimately show ?thesis by (auto simp: at_j split: if_splits)
qed

lemma guard_step_conserves:
  assumes "guard_step op (gs, w) = Some (gs', w')"
  shows "held_frames gs' + released_frames w' = held_frames gs + released_frames w"
proof (cases op)
  case (MoveConstruct j)
  with assms have j: "j < length gs" and r: "gs' = gs[j := snd (guard_move (gs ! j))] @ [fst (guard_move (gs ! j))]"
    "w' = w" by (auto split: if_splits)
  from held_frames_update_null [OF j, of "snd (guard_move (gs ! j))"]
  have "held_frames (gs[j := snd (guard_move (gs ! j))])
          + (if holds_pin (gs ! j) then {#the (guard_page (gs ! j))#} else {#}) = held_frames gs"
    by (simp add: guard_move_props)
  then show ?thesis by (auto simp: r held_frames_append guard_move_props split: if_splits)
next
  case (MoveAssign i j)
  with assms obtain g' w1 where i: "i < length gs" and j: "j < length gs"
    and d: "guard_Drop (gs ! i) w = Some (g', w1)"
    and r: "gs' = ((gs[i := g'])[i := fst (guard_move ((gs[i := g']) ! j))])
              [j := (((gs[i := g'])[i := fst (guard_move ((gs[i := g']) ! j))]) ! j)
                     \<lparr>guard_page := None, guard_bpm := None\<rparr>]" "w' = w1"
    by (auto simp: Let_def split: if_splits option.splits)
  let ?gs1 = "gs[i := g']"
  from guard_Drop_result(1) [OF d] have g': "\<not> holds_pin g'" by (simp add: holds_pin_def)
  have i1: "i < length ?gs1" and j1: "j < length ?gs1" using i j by simp_all
  have n1: "\<not> holds_pin (?gs1 ! i)" using i g' by simp
  have "held_frames gs' = held_frames ?gs1"
    unfolding r using held_frames_transfer [OF i1 j1 n1] by simp
  moreover have "held_frames ?gs1 + released_frames w1 = held_frames gs + released_frames w"
  proof (cases "holds_pin (gs ! i)")
    case True
    from held_frames_update_null [OF i g'] True
    have "held_frames ?gs1 + {#the (guard_page (gs ! i))#} = held_frames gs" by simp
    with guard_Drop_result(3) [OF d True] show ?thesis by simp
  next
    case False
    from held_frames_update_null [OF i g'] False have "held_frames ?gs1 = held_frames gs" by simp
    with guard_Drop_result(2) [OF d False] show ?thesis by simp
  qed
  ultimately show ?thesis by (simp add: r)
next
  case (DropGuard i)
  with assms obtain g' where i: "i < length gs" and d: "guard_Drop (gs ! i) w = Some (g', w')"
    and r: "gs' = gs[i := g']"
    by (auto split: if_splits option.splits)
  from guard_Drop_result(1) [OF d] have g': "\<not> holds_pin g'" by (simp add: holds_pin_def)
  show ?thesis
  proof (cases "holds_pin (gs ! i)")
    case True
    from held_frames_update_null [OF i g'] True
    have "held_frames (gs[i := g']) + {#the (guard_page (gs ! i))#} = held_frames gs" by simp
    with guard_Drop_result(3) [OF d True] show ?thesis by (simp add: r)
  next
    case False
    from held_frames_update_null [OF i g'] False have "held_frames (gs[i := g']) = held_frames gs" by simp
    with guard_Drop_result(2) [OF d False] show ?thesis by (simp add: r)
  qed
next
  case (Destroy i)
  with assms obtain g' where i: "i < length gs" and d: "guard_Drop (gs ! i) w = Some (g', w')"
    and r: "gs' = gs[i := g']"
    by (auto split: if_splits option.splits)
  from guard_Drop_result(1) [OF d] have g': "\<not> holds_pin g'" by (simp add: holds_pin_def)
  show ?thesis
  proof (cases "holds_pin (gs ! i)")
    case True
    from held_frames_update_null [OF i g'] True
    have "held_frames (gs[i := g']) + {#the (guard_page (gs ! i))#} = held_frames gs" by simp
    with guard_Drop_result(3) [OF d True] show ?thesis by (simp add: r)
  next
    case False
    from held_frames_update_null [OF i g'] False have "held_frames (gs[i := g']) = held_frames gs" by simp
    with guard_Drop_result(2) [OF d False] show ?thesis by (simp add: r)
  qed
qed

lemma guard_run_conserves:
  "guard_run ops st = Some st'
     \<Longrightarrow> held_frames (fst st') + released_frames (snd st') = held_frames (fst st) + released_frames (snd st)"
proof (induction ops arbitrary: st)
  case Nil
  then show ?case by simp
next
  case (Cons op ops)
  then obtain st1 where s: "guard_step op st = Some st1" and r: "guard_run ops st1 = Some st'"
    by (auto split: option.splits)
  from guard_step_conserves [of op "fst st" "snd st" "fst st1" "snd st1"] s
  have "held_frames (fst st1) + released_frames (snd st1) = held_frames (fst st) + released_frames (snd st)"
    by simp
  with Cons.IH [OF r] show ?case by simp
qed


lemma guard_step_null_target:
  assumes "\<not> holds_pin (gs ! i)" "guard_step op (gs, w) = Some (gs', w')"
    "op = DropGuard i \<or> op = Destroy i \<or> op = MoveAssign i j"
  shows "w' = w"
  using assms guard_Drop_null [of "gs ! i" w]
  by (auto simp: Let_def split: if_splits)

lemma guard_Drop_holding:
  assumes "guard_bpm g = Some b" "guard_page g = Some f" "f < length (pages (pool w))"
    and "UnpinPage (page_id (pages (pool w) ! f)) (guard_is_dirty g) (pool w) = Some (res, bpm')"
  shows "guard_Drop g w =
     Some (g\<lparr>guard_bpm := None, guard_page := None\<rparr>,
           w\<lparr>pool := bpm',
             unpin_calls := unpin_calls w @ [(f, page_id (pages (pool w) ! f), guard_is_dirty g)]\<rparr>)"
  using assms by (simp add: guard_Drop_def)

lemma guard_step_move_construct:
  assumes "guard_step (MoveConstruct j) (gs, w) = Some (gs', w')"
  shows "w' = w \<and> gs' ! length gs = fst (guard_move (gs ! j)) \<and> gs' ! j = snd (guard_move (gs ! j))"
  using assms by (auto simp: nth_append split: if_splits)

lemma destroy_from:
  assumes "guard_run (map Destroy [m..<length gs]) (gs, w) = Some (gs', w')"
  shows "length gs' = length gs \<and> (\<forall>n < m. gs' ! n = gs ! n)
       \<and> (\<forall>n < length gs. m \<le> n \<longrightarrow> \<not> holds_pin (gs' ! n))"
  using assms
proof (induction "length gs - m" arbitrary: m gs w)
  case 0
  then have "[m..<length gs] = []" by simp
  with 0 show ?case by simp
next
  case (Suc d)
  then have lt: "m < length gs" by simp
  then have u: "[m..<length gs] = m # [Suc m..<length gs]" by (rule upt_conv_Cons)
  from Suc.prems lt obtain g1 w1 where d: "guard_Drop (gs ! m) w = Some (g1, w1)"
    and r: "guard_run (map Destroy [Suc m..<length gs]) (gs[m := g1], w1) = Some (gs', w')"
    unfolding u by (auto split: option.splits)
  from guard_Drop_result(1) [OF d] have n1: "\<not> holds_pin g1" by (simp add: holds_pin_def)
  have len: "length (gs[m := g1]) = length gs" by simp
  from Suc.hyps(2) have "d = length (gs[m := g1]) - Suc m" by simp
  from Suc.hyps(1) [OF this] r len
  have ih: "length gs' = length gs"
    "\<forall>n < Suc m. gs' ! n = gs[m := g1] ! n"
    "\<forall>n < length gs. Suc m \<le> n \<longrightarrow> \<not> holds_pin (gs' ! n)" by simp_all
  from ih(2) lt have keep: "gs' ! m = g1" by simp
  from ih(2) have below: "\<forall>n < m. gs' ! n = gs ! n" by simp
  have "\<not> holds_pin (gs' ! n)" if "n < length gs" "m \<le> n" for n
  proof (cases "n = m")
    case True
    with keep n1 show ?thesis by simp
  next
    case False
    with that ih(3) show ?thesis by simp
  qed
  with ih(1) below show ?case by simp
qed

lemma held_frames_none: "\<forall>g \<in> set gs. \<not> holds_pin g \<Longrightarrow> held_frames gs = {#}"
  by (induction gs) (auto simp: held_frames_def)

lemma destroy_all:
  assumes "guard_run (map Destroy [0..<length gs]) (gs, w) = Some (gs', w')"
  shows "(\<forall>g \<in> set gs'. \<not> holds_pin g) \<and> released_frames w' = released_frames w + held_frames gs"
proof -
  from destroy_from [OF assms] have "\<forall>n < length gs'. \<not> holds_pin (gs' ! n)" by simp
  then have a: "\<forall>g \<in> set gs'. \<not> holds_pin g" by (auto simp: in_set_conv_nth)
  then have "held_frames gs' = {#}" by (rule held_frames_none)
  with guard_run_conserves [OF assms] a show ?thesis by (simp add: add.commute)
qed

lemma guard_step_assign_holding:
  assumes i: "i < length gs" and j: "j < length gs"
    and d: "guard_Drop (gs ! i) w = Some (g1, w1)"
  shows "\<exists>gs'. guard_step (MoveAssign i j) (gs, w) = Some (gs', w1)
           \<and> guard_bpm (gs' ! j) = None \<and> guard_page (gs' ! j) = None
           \<and> (i \<noteq> j \<longrightarrow> guard_bpm (gs' ! i) = guard_bpm (gs ! j)
                         \<and> guard_page (gs' ! i) = guard_page (gs ! j)
                         \<and> guard_is_dirty (gs' ! i) = guard_is_dirty (gs ! j))"
  using assms by (auto simp: Let_def guard_move_def)

text \<open>
  C10.  After \<open>Drop\<close> the guard's two pointers are null and a second \<open>Drop\<close> changes neither
  the guard nor the world.  The move constructor makes no \<open>UnpinPage\<close> call, hands the
  pointers and the dirty flag to the new guard and leaves the guard moved from with null
  pointers.  \<open>Drop\<close> of a guard with a null pointer returns without an \<open>UnpinPage\<close> call, and
  so do the destructor and a move-assignment over such a guard.  \<open>Drop\<close> and the destructor of a guard that holds a pin make
  exactly one \<open>UnpinPage\<close> call, for the page of the guard's frame with the guard's dirty
  flag, and leave the guard with null pointers and the other guards as they are; a
  move-assignment over such a guard makes that one call and then hands over the pointers of
  the source, which is left null.  Over any sequence of move constructions, move
  assignments, \<open>Drop\<close>s and destructions the frames held by guards together with the frames
  released through guards stay the same multiset; and when every guard is destroyed, no
  guard holds a pin and the frames released are those released before together with the
  frames that were held, each as often as it was held.
\<close>

theorem basic_page_guard_released_once:
  "(guard_Drop g w = Some (g', w')
      \<longrightarrow> guard_bpm g' = None \<and> guard_page g' = None \<and> guard_Drop g' w' = Some (g', w'))
   \<and> guard_bpm (snd (guard_move g)) = None \<and> guard_page (snd (guard_move g)) = None
   \<and> (guard_bpm (gs ! i) = None \<and> guard_page (gs ! i) = None
        \<and> (op = DropGuard i \<or> op = Destroy i \<or> op = MoveAssign i j)
        \<and> guard_step op (gs, v) = Some (gs', v')
      \<longrightarrow> v' = v)
   \<and> (guard_run ops (hs, u) = Some (hs', u')
      \<longrightarrow> held_frames hs' + released_frames u' = held_frames hs + released_frames u)
   \<and> guard_bpm (fst (guard_move g)) = guard_bpm g \<and> guard_page (fst (guard_move g)) = guard_page g
   \<and> guard_is_dirty (fst (guard_move g)) = guard_is_dirty g
   \<and> (guard_step (MoveConstruct c) (cs, x) = Some (cs', x')
      \<longrightarrow> x' = x \<and> cs' ! length cs = fst (guard_move (cs ! c))
          \<and> cs' ! c = snd (guard_move (cs ! c)))
   \<and> (n < length fs \<and> guard_bpm (fs ! n) = Some b \<and> guard_page (fs ! n) = Some f
        \<and> f < length (pages (pool y))
        \<and> UnpinPage (page_id (pages (pool y) ! f)) (guard_is_dirty (fs ! n)) (pool y) = Some (res, bpm')
      \<longrightarrow> (\<forall>dop. dop = DropGuard n \<or> dop = Destroy n \<longrightarrow>
             guard_step dop (fs, y) =
               Some (fs[n := (fs ! n)\<lparr>guard_bpm := None, guard_page := None\<rparr>],
                     y\<lparr>pool := bpm',
                       unpin_calls := unpin_calls y
                         @ [(f, page_id (pages (pool y) ! f), guard_is_dirty (fs ! n))]\<rparr>))
          \<and> (\<forall>m < length fs. \<exists>fs'.
                guard_step (MoveAssign n m) (fs, y) =
                  Some (fs', y\<lparr>pool := bpm',
                            unpin_calls := unpin_calls y
                              @ [(f, page_id (pages (pool y) ! f), guard_is_dirty (fs ! n))]\<rparr>)
                \<and> guard_bpm (fs' ! m) = None \<and> guard_page (fs' ! m) = None
                \<and> (n \<noteq> m \<longrightarrow> guard_bpm (fs' ! n) = guard_bpm (fs ! m)
                              \<and> guard_page (fs' ! n) = guard_page (fs ! m)
                              \<and> guard_is_dirty (fs' ! n) = guard_is_dirty (fs ! m))))
   \<and> (guard_run (map Destroy [0..<length ds]) (ds, z) = Some (ds', z')
      \<longrightarrow> (\<forall>d \<in> set ds'. \<not> holds_pin d)
          \<and> released_frames z' = released_frames z + held_frames ds)
   \<and> (guard_bpm e = None \<or> guard_page e = None
      \<longrightarrow> guard_Drop e t = Some (e\<lparr>guard_bpm := None, guard_page := None\<rparr>, t))"
proof (intro conjI impI allI)
  assume d: "guard_Drop g w = Some (g', w')"
  from guard_Drop_result(1) [OF d] have g': "g' = g\<lparr>guard_bpm := None, guard_page := None\<rparr>" .
  then show "guard_bpm g' = None" "guard_page g' = None" by simp_all
  from g' have "\<not> holds_pin g'" by (simp add: holds_pin_def)
  from guard_Drop_null [OF this] g' show "guard_Drop g' w' = Some (g', w')" by simp
next
  show "guard_bpm (snd (guard_move g)) = None" "guard_page (snd (guard_move g)) = None"
    by (simp_all add: guard_move_props)
next
  assume a: "guard_bpm (gs ! i) = None \<and> guard_page (gs ! i) = None
        \<and> (op = DropGuard i \<or> op = Destroy i \<or> op = MoveAssign i j)
        \<and> guard_step op (gs, v) = Some (gs', v')"
  then have "\<not> holds_pin (gs ! i)" by (simp add: holds_pin_def)
  with a show "v' = v" using guard_step_null_target [of gs i op v gs' v' j] by blast
next
  assume "guard_run ops (hs, u) = Some (hs', u')"
  from guard_run_conserves [OF this]
  show "held_frames hs' + released_frames u' = held_frames hs + released_frames u" by simp
next
  show "guard_bpm (fst (guard_move g)) = guard_bpm g" "guard_page (fst (guard_move g)) = guard_page g"
    "guard_is_dirty (fst (guard_move g)) = guard_is_dirty g"
    by (simp_all add: guard_move_def)
next
  assume "guard_step (MoveConstruct c) (cs, x) = Some (cs', x')"
  from guard_step_move_construct [OF this]
  show "x' = x" "cs' ! length cs = fst (guard_move (cs ! c))" "cs' ! c = snd (guard_move (cs ! c))"
    by simp_all
next
  fix dop
  assume a: "n < length fs \<and> guard_bpm (fs ! n) = Some b \<and> guard_page (fs ! n) = Some f
        \<and> f < length (pages (pool y))
        \<and> UnpinPage (page_id (pages (pool y) ! f)) (guard_is_dirty (fs ! n)) (pool y) = Some (res, bpm')"
    and o: "dop = DropGuard n \<or> dop = Destroy n"
  from a guard_Drop_holding [of "fs ! n" b f y res bpm']
  have "guard_Drop (fs ! n) y =
     Some ((fs ! n)\<lparr>guard_bpm := None, guard_page := None\<rparr>,
           y\<lparr>pool := bpm',
             unpin_calls := unpin_calls y @ [(f, page_id (pages (pool y) ! f), guard_is_dirty (fs ! n))]\<rparr>)"
    by simp
  with a o show "guard_step dop (fs, y) =
               Some (fs[n := (fs ! n)\<lparr>guard_bpm := None, guard_page := None\<rparr>],
                     y\<lparr>pool := bpm',
                       unpin_calls := unpin_calls y
                         @ [(f, page_id (pages (pool y) ! f), guard_is_dirty (fs ! n))]\<rparr>)"
    by auto
next
  fix m
  assume a: "n < length fs \<and> guard_bpm (fs ! n) = Some b \<and> guard_page (fs ! n) = Some f
        \<and> f < length (pages (pool y))
        \<and> UnpinPage (page_id (pages (pool y) ! f)) (guard_is_dirty (fs ! n)) (pool y) = Some (res, bpm')"
    and m: "m < length fs"
  from a guard_Drop_holding [of "fs ! n" b f y res bpm']
  have d: "guard_Drop (fs ! n) y =
     Some ((fs ! n)\<lparr>guard_bpm := None, guard_page := None\<rparr>,
           y\<lparr>pool := bpm',
             unpin_calls := unpin_calls y @ [(f, page_id (pages (pool y) ! f), guard_is_dirty (fs ! n))]\<rparr>)"
    by simp
  from a have n: "n < length fs" by simp
  from guard_step_assign_holding [OF n m d]
  show "\<exists>fs'.
          guard_step (MoveAssign n m) (fs, y) =
            Some (fs', y\<lparr>pool := bpm',
                      unpin_calls := unpin_calls y
                        @ [(f, page_id (pages (pool y) ! f), guard_is_dirty (fs ! n))]\<rparr>)
          \<and> guard_bpm (fs' ! m) = None \<and> guard_page (fs' ! m) = None
          \<and> (n \<noteq> m \<longrightarrow> guard_bpm (fs' ! n) = guard_bpm (fs ! m)
                        \<and> guard_page (fs' ! n) = guard_page (fs ! m)
                        \<and> guard_is_dirty (fs' ! n) = guard_is_dirty (fs ! m))" .
next
  assume "guard_run (map Destroy [0..<length ds]) (ds, z) = Some (ds', z')"
  from destroy_all [OF this]
  show "\<forall>d \<in> set ds'. \<not> holds_pin d" "released_frames z' = released_frames z + held_frames ds"
    by simp_all
next
  assume "guard_bpm e = None \<or> guard_page e = None"
  then have "\<not> holds_pin e" by (auto simp: holds_pin_def)
  from guard_Drop_null [OF this]
  show "guard_Drop e t = Some (e\<lparr>guard_bpm := None, guard_page := None\<rparr>, t)" .
qed

lemma pinned_run:
  "guard_run [MoveConstruct 0, DropGuard 0, MoveAssign 0 1, Destroy 1, DropGuard 0, Destroy 0]
      ([pinning_guard], pinned_world)
   = Some ([null_guard, null_guard],
           \<lparr>pool = snd (the (UnpinPage 5 False (pinned_pool 1))), unpin_calls = [(0, 5, False)]\<rparr>)"
  by (simp add: guard_move_def guard_Drop_def pinning_guard_def null_guard_def pinned_world_def
        Let_def UnpinPage_def INVALID_PAGE_ID_def pinned_pool_def)

lemma pinned_unpin:
  "UnpinPage 5 False (pinned_pool 1)
     = Some (True, snd (the (UnpinPage 5 False (pinned_pool 1))))"
  by (simp add: UnpinPage_def INVALID_PAGE_ID_def pinned_pool_def Let_def)

theorem basic_page_guard_released_once_witness:
  "guard_Drop pinning_guard pinned_world
     = Some (null_guard, \<lparr>pool = snd (the (UnpinPage 5 False (pinned_pool 1))), unpin_calls = [(0, 5, False)]\<rparr>)
   \<and> guard_Drop null_guard \<lparr>pool = snd (the (UnpinPage 5 False (pinned_pool 1))), unpin_calls = [(0, 5, False)]\<rparr>
     = Some (null_guard, \<lparr>pool = snd (the (UnpinPage 5 False (pinned_pool 1))), unpin_calls = [(0, 5, False)]\<rparr>)
   \<and> guard_step (MoveAssign 0 1) ([null_guard, pinning_guard], pinned_world)
     = Some ([pinning_guard, null_guard], pinned_world)
   \<and> guard_step (MoveConstruct 0) ([pinning_guard], pinned_world)
     = Some ([null_guard, pinning_guard], pinned_world)
   \<and> guard_step (MoveAssign 0 1) ([pinning_guard, null_guard], pinned_world)
     = Some ([null_guard, null_guard],
             \<lparr>pool = snd (the (UnpinPage 5 False (pinned_pool 1))), unpin_calls = [(0, 5, False)]\<rparr>)
   \<and> guard_Drop null_guard pinned_world = Some (null_guard, pinned_world)
   \<and> guard_step (Destroy 0) ([pinning_guard], pinned_world)
     = Some ([null_guard],
             \<lparr>pool = snd (the (UnpinPage 5 False (pinned_pool 1))), unpin_calls = [(0, 5, False)]\<rparr>)
   \<and> guard_step (DropGuard 0) ([pinning_guard], pinned_world)
     = Some ([null_guard],
             \<lparr>pool = snd (the (UnpinPage 5 False (pinned_pool 1))), unpin_calls = [(0, 5, False)]\<rparr>)
   \<and> pin_count (pages (pinned_pool 1) ! 0) = 1
   \<and> pin_count (pages (snd (the (UnpinPage 5 False (pinned_pool 1)))) ! 0) = 0
   \<and> guard_run (map Destroy [0..<length [pinning_guard]]) ([pinning_guard], pinned_world)
     = Some ([null_guard],
             \<lparr>pool = snd (the (UnpinPage 5 False (pinned_pool 1))), unpin_calls = [(0, 5, False)]\<rparr>)
   \<and> guard_run [MoveConstruct 0, DropGuard 0, MoveAssign 0 1, Destroy 1, DropGuard 0, Destroy 0]
        ([pinning_guard], pinned_world)
     = Some ([null_guard, null_guard],
             \<lparr>pool = snd (the (UnpinPage 5 False (pinned_pool 1))), unpin_calls = [(0, 5, False)]\<rparr>)
   \<and> held_frames [pinning_guard] = {#0#} \<and> released_frames pinned_world = {#}
   \<and> held_frames [null_guard, null_guard] = {#}
   \<and> released_frames \<lparr>pool = snd (the (UnpinPage 5 False (pinned_pool 1))), unpin_calls = [(0, 5, False)]\<rparr>
     = {#0#}"
proof -
  let ?p1 = "snd (the (UnpinPage 5 False (pinned_pool 1)))"
  let ?w1 = "\<lparr>pool = ?p1, unpin_calls = [(0, 5, False)]\<rparr>"
  note rel = basic_page_guard_released_once
  have d: "guard_Drop pinning_guard pinned_world = Some (null_guard, ?w1)"
    by (simp add: guard_Drop_def pinning_guard_def null_guard_def pinned_world_def
        Let_def UnpinPage_def INVALID_PAGE_ID_def pinned_pool_def)
  have m: "guard_step (MoveAssign 0 1) ([null_guard, pinning_guard], pinned_world)
     = Some ([pinning_guard, null_guard], pinned_world)"
    by (simp add: guard_move_def guard_Drop_def pinning_guard_def null_guard_def Let_def)
  have c: "guard_step (MoveConstruct 0) ([pinning_guard], pinned_world)
     = Some ([null_guard, pinning_guard], pinned_world)"
    by (simp add: guard_move_def pinning_guard_def null_guard_def)
  have n: "guard_bpm ([null_guard, pinning_guard] ! 0) = None \<and> guard_page ([null_guard, pinning_guard] ! 0) = None"
    by (simp add: null_guard_def)
  from rel [where g = pinning_guard and w = pinned_world and g' = null_guard and w' = ?w1,
      THEN conjunct1] d
  have 1: "guard_Drop null_guard ?w1 = Some (null_guard, ?w1)" by blast
  from rel [where gs = "[null_guard, pinning_guard]" and i = 0 and op = "MoveAssign 0 1" and j = 1
      and v = pinned_world and gs' = "[pinning_guard, null_guard]" and v' = pinned_world,
      THEN conjunct2, THEN conjunct2, THEN conjunct2, THEN conjunct1] m n
  have 2: "pinned_world = pinned_world" by blast
  from rel [where c = 0 and cs = "[pinning_guard]" and x = pinned_world
      and cs' = "[null_guard, pinning_guard]" and x' = pinned_world,
      THEN conjunct2, THEN conjunct2, THEN conjunct2, THEN conjunct2, THEN conjunct2, THEN conjunct2, THEN conjunct2, THEN conjunct2, THEN conjunct1] c
  have 9: "[null_guard, pinning_guard] ! length [pinning_guard] = fst (guard_move ([pinning_guard] ! 0))
      \<and> [null_guard, pinning_guard] ! 0 = snd (guard_move ([pinning_guard] ! 0))" by blast
  have "guard_bpm null_guard = None \<or> guard_page null_guard = None" by (simp add: null_guard_def)
  with rel [where e = null_guard and t = pinned_world, THEN conjunct2, THEN conjunct2, THEN conjunct2, THEN conjunct2, THEN conjunct2, THEN conjunct2, THEN conjunct2, THEN conjunct2, THEN conjunct2, THEN conjunct2, THEN conjunct2]
  have nd: "guard_Drop null_guard pinned_world = Some (null_guard, pinned_world)"
    by (simp add: null_guard_def)
  have h2: "0 < length [pinning_guard, null_guard] \<and> guard_bpm ([pinning_guard, null_guard] ! 0) = Some ()
      \<and> guard_page ([pinning_guard, null_guard] ! 0) = Some 0
      \<and> 0 < length (pages (pool pinned_world))
      \<and> UnpinPage (page_id (pages (pool pinned_world) ! 0))
           (guard_is_dirty ([pinning_guard, null_guard] ! 0)) (pool pinned_world) = Some (True, ?p1)"
    using pinned_unpin by (simp add: pinning_guard_def pinned_world_def) (simp add: pinned_pool_def)
  from rel [where n = 0 and fs = "[pinning_guard, null_guard]" and b = "()" and f = 0
      and y = pinned_world and res = True and bpm' = ?p1,
      THEN conjunct2, THEN conjunct2, THEN conjunct2, THEN conjunct2, THEN conjunct2, THEN conjunct2, THEN conjunct2, THEN conjunct2, THEN conjunct2, THEN conjunct1] h2
  have "\<forall>m < length [pinning_guard, null_guard]. \<exists>fs'.
      guard_step (MoveAssign 0 m) ([pinning_guard, null_guard], pinned_world) =
        Some (fs', pinned_world\<lparr>pool := ?p1,
                unpin_calls := unpin_calls pinned_world
                  @ [(0, page_id (pages (pool pinned_world) ! 0),
                      guard_is_dirty ([pinning_guard, null_guard] ! 0))]\<rparr>)
      \<and> guard_bpm (fs' ! m) = None \<and> guard_page (fs' ! m) = None
      \<and> (0 \<noteq> m \<longrightarrow> guard_bpm (fs' ! 0) = guard_bpm ([pinning_guard, null_guard] ! m)
                    \<and> guard_page (fs' ! 0) = guard_page ([pinning_guard, null_guard] ! m)
                    \<and> guard_is_dirty (fs' ! 0) = guard_is_dirty ([pinning_guard, null_guard] ! m))"
    by blast
  then obtain fs' where "guard_step (MoveAssign 0 1) ([pinning_guard, null_guard], pinned_world) =
        Some (fs', pinned_world\<lparr>pool := ?p1,
                unpin_calls := unpin_calls pinned_world
                  @ [(0, page_id (pages (pool pinned_world) ! 0),
                      guard_is_dirty ([pinning_guard, null_guard] ! 0))]\<rparr>)"
    by auto
  have ma: "guard_step (MoveAssign 0 1) ([pinning_guard, null_guard], pinned_world)
      = Some ([null_guard, null_guard], ?w1)"
    by (simp add: guard_move_def guard_Drop_def pinning_guard_def null_guard_def pinned_world_def
        Let_def UnpinPage_def INVALID_PAGE_ID_def pinned_pool_def)
  have h: "0 < length [pinning_guard] \<and> guard_bpm ([pinning_guard] ! 0) = Some ()
      \<and> guard_page ([pinning_guard] ! 0) = Some 0
      \<and> 0 < length (pages (pool pinned_world))
      \<and> UnpinPage (page_id (pages (pool pinned_world) ! 0)) (guard_is_dirty ([pinning_guard] ! 0))
           (pool pinned_world) = Some (True, ?p1)"
    using pinned_unpin by (simp add: pinning_guard_def pinned_world_def) (simp add: pinned_pool_def)
  have upd: "[pinning_guard][0 := ([pinning_guard] ! 0)\<lparr>guard_bpm := None, guard_page := None\<rparr>] = [null_guard]"
    by (simp add: pinning_guard_def null_guard_def)
  have wupd: "pinned_world\<lparr>pool := ?p1,
        unpin_calls := unpin_calls pinned_world
          @ [(0, page_id (pages (pool pinned_world) ! 0), guard_is_dirty ([pinning_guard] ! 0))]\<rparr> = ?w1"
    by (simp add: pinned_world_def pinning_guard_def) (simp add: pinned_pool_def)
  from rel [where n = 0 and fs = "[pinning_guard]" and b = "()" and f = 0 and y = pinned_world
      and res = True and bpm' = ?p1,
      THEN conjunct2, THEN conjunct2, THEN conjunct2, THEN conjunct2, THEN conjunct2, THEN conjunct2, THEN conjunct2, THEN conjunct2, THEN conjunct2, THEN conjunct1] h
  have 5: "\<forall>dop. dop = DropGuard 0 \<or> dop = Destroy 0 \<longrightarrow>
      guard_step dop ([pinning_guard], pinned_world) = Some ([null_guard], ?w1)"
    unfolding upd wupd by blast
  then have des: "guard_step (Destroy 0) ([pinning_guard], pinned_world) = Some ([null_guard], ?w1)"
    and drp: "guard_step (DropGuard 0) ([pinning_guard], pinned_world) = Some ([null_guard], ?w1)"
    by blast+
  from des have r1: "guard_run (map Destroy [0..<length [pinning_guard]]) ([pinning_guard], pinned_world)
      = Some ([null_guard], ?w1)" by simp
  from rel [where ds = "[pinning_guard]" and z = pinned_world and ds' = "[null_guard]" and z' = ?w1,
      THEN conjunct2, THEN conjunct2, THEN conjunct2, THEN conjunct2, THEN conjunct2, THEN conjunct2, THEN conjunct2, THEN conjunct2, THEN conjunct2, THEN conjunct2, THEN conjunct1] r1
  have 7: "released_frames ?w1 = released_frames pinned_world + held_frames [pinning_guard]" by blast
  from rel [where ops = "[MoveConstruct 0, DropGuard 0, MoveAssign 0 1, Destroy 1, DropGuard 0, Destroy 0]"
      and hs = "[pinning_guard]" and u = pinned_world and hs' = "[null_guard, null_guard]" and u' = ?w1,
      THEN conjunct2, THEN conjunct2, THEN conjunct2, THEN conjunct2, THEN conjunct1]
    pinned_run
  have 3: "held_frames [null_guard, null_guard] + released_frames ?w1
      = held_frames [pinning_guard] + released_frames pinned_world" by blast
  have 4: "held_frames [pinning_guard] = {#0#}" "released_frames pinned_world = {#}"
    "held_frames [null_guard, null_guard] = {#}"
    by (simp_all add: held_frames_def holds_pin_def pinning_guard_def null_guard_def
        released_frames_def pinned_world_def)
  from 7 4 have 8: "released_frames ?w1 = {#0#}" by simp
  have pc: "pin_count (pages (pinned_pool 1) ! 0) = 1" "pin_count (pages ?p1 ! 0) = 0"
    by (simp_all add: UnpinPage_def INVALID_PAGE_ID_def pinned_pool_def Let_def)
  from d 1 m c ma nd des drp r1 pinned_run 4 8 pc show ?thesis by simp
qed

subsection \<open>Extendible hash index: the directory after splits\<close>

lemma three_inserts_keep_invariant:
  "Option.bind (insert_all [(0, 10), (2, 12), (3, 13)] small_table) (\<lambda>t. directory_view t 1)
     = Some (2, [2, 1, 2, 1], [2, 3, 4, 3])
   \<and> Option.bind (insert_all [(0, 10), (2, 12), (3, 13)] small_table)
       (\<lambda>t. map_option (\<lambda>d. depths_bounded d \<and> slots_agree d \<and> slots_valid t d) (fetch_directory t 1))
     = Some True"
  by code_simp

text \<open>
  C2.  The claim's invariant fails after a completed \<open>Insert\<close>.  In a table with directory
  depth 3 and buckets of one entry, keys with the hashes 0, 2, 3 and 7 are inserted.  The
  fourth insert finds slot 3 full at local depth 1 under global depth 2: the code raises
  the local depth of slot 3 alone, takes \<open>3 + 2^(global_depth - 1) = 5\<close>, outside the
  directory, for the split image, moves nothing, and on the recursive call doubles the
  directory.  In the final directory slot 1 has local depth 1 and names page 3, while slot 7,
  which has the same low bit, names page 6.
\<close>

theorem split_breaks_directory_invariant:
  "Option.bind (insert_all [(0, 10), (2, 12), (3, 13), (7, 17)] small_table) (\<lambda>t. directory_view t 1)
     = Some (3, [2, 1, 2, 3, 2, 1, 2, 3], [2, 3, 4, 3, 2, 3, 4, 6])
   \<and> Option.bind (insert_all [(0, 10), (2, 12), (3, 13), (7, 17)] small_table)
       (\<lambda>t. map_option slots_agree (fetch_directory t 1))
     = Some False"
  by code_simp

subsection \<open>Extendible hash index: duplicate keys\<close>

text \<open>
  C4.  The claim fails for a key that \<open>Insert\<close> has accepted and nothing has removed.  In a
  table with directory depth 3 and buckets of one entry, \<open>Insert\<close> is called for the keys 0,
  4, 5, 1 and 9 (hashed by the identity): the first four calls return true, the fifth
  returns false after its splits have rewritten the directory.  Key 5 is still the entry of
  bucket page 6, but slot 5 of the directory now names page 7, so \<open>GetValue\<close> does not find
  it; \<open>Insert\<close> of key 5 then returns true and changes the index, which afterwards holds key
  5 in the pages 6 and 7.
\<close>

theorem insert_accepts_stored_key:
  "map_option fst (insert_results [(0, 100), (4, 104), (5, 105), (1, 101), (9, 109)] small_table)
     = Some [True, True, True, True, False]
   \<and> directory_view lost_key_table 1 = Some (3, [3, 3, 2, 1, 3, 3, 2, 1], [2, 3, 4, 3, 5, 7, 4, 3])
   \<and> pages_holding lost_key_table 5 = [6]
   \<and> map_option array (fetch_bucket lost_key_table 6) = Some [(5, 105)]
   \<and> GetValue lost_key_table 5 = Some None
   \<and> map_option fst (ht_Insert 10 lost_key_table 5 99) = Some True
   \<and> map_option (\<lambda>r. pages_holding (snd r) 5) (ht_Insert 10 lost_key_table 5 99) = Some [6, 7]
   \<and> map_option (\<lambda>r. GetValue (snd r) 5) (ht_Insert 10 lost_key_table 5 99) = Some (Some (Some 99))"
  by code_simp

subsection \<open>Extendible hash index: a key just inserted\<close>

lemma write_page_fields:
  "cmp (write_page p c t) = cmp t" "hash_fn (write_page p c t) = hash_fn t"
  "header_page_id (write_page p c t) = header_page_id t"
  "ht_next_page_id (write_page p c t) = ht_next_page_id t"
  "bucket_max_size (write_page p c t) = bucket_max_size t"
  "directory_max_depth (write_page p c t) = directory_max_depth t"
  "Hash (write_page p c t) = Hash t"
  "store (write_page p c t) = (store t)(p \<mapsto> c)"
  by (simp_all add: write_page_def Hash_def fun_eq_iff)

lemma fetch_write:
  "fetch_header (write_page p c t) q
     = (if q = p then (case c of HeaderPage h \<Rightarrow> Some h | _ \<Rightarrow> None) else fetch_header t q)"
  "fetch_directory (write_page p c t) q
     = (if q = p then (case c of DirectoryPage d \<Rightarrow> Some d | _ \<Rightarrow> None) else fetch_directory t q)"
  "fetch_bucket (write_page p c t) q
     = (if q = p then (case c of BucketPage b \<Rightarrow> Some b | _ \<Rightarrow> None) else fetch_bucket t q)"
  by (simp_all add: write_page_def fetch_header_def fetch_directory_def fetch_bucket_def)

lemma fetch_next_fields:
  "fetch_header (t\<lparr>ht_next_page_id := n\<rparr>) q = fetch_header t q"
  "fetch_directory (t\<lparr>ht_next_page_id := n\<rparr>) q = fetch_directory t q"
  "fetch_bucket (t\<lparr>ht_next_page_id := n\<rparr>) q = fetch_bucket t q"
  "Hash (t\<lparr>ht_next_page_id := n\<rparr>) = Hash t"
  by (simp_all add: fetch_header_def fetch_directory_def fetch_bucket_def Hash_def fun_eq_iff)

lemma fetched_below:
  assumes "table_wf t"
  shows "fetch_header t q = Some h \<Longrightarrow> q < ht_next_page_id t"
    and "fetch_directory t q = Some d \<Longrightarrow> q < ht_next_page_id t"
    and "fetch_bucket t q = Some b \<Longrightarrow> q < ht_next_page_id t"
  using assms
  by (auto simp: table_wf_def fetch_header_def fetch_directory_def fetch_bucket_def not_le [symmetric]
      split: option.splits page_content.splits)

lemma fetched_distinct:
  "fetch_header t p = Some h \<Longrightarrow> fetch_directory t q = Some d \<Longrightarrow> p \<noteq> q"
  "fetch_header t p = Some h \<Longrightarrow> fetch_bucket t q = Some b \<Longrightarrow> p \<noteq> q"
  "fetch_directory t p = Some d \<Longrightarrow> fetch_bucket t q = Some b \<Longrightarrow> p \<noteq> q"
  by (auto simp: fetch_header_def fetch_directory_def fetch_bucket_def
      split: option.splits page_content.splits)

lemma wf_write_existing:
  "table_wf t \<Longrightarrow> p < ht_next_page_id t \<Longrightarrow> table_wf (write_page p c t)"
  by (auto simp: table_wf_def write_page_def)

lemma wf_write_new:
  "table_wf t \<Longrightarrow> table_wf (write_page (ht_next_page_id t) c (t\<lparr>ht_next_page_id := ht_next_page_id t + 1\<rparr>))"
  by (auto simp: table_wf_def write_page_def)

lemma wf_next:
  "table_wf t \<Longrightarrow> ht_next_page_id t \<noteq> INVALID_PAGE_ID"
  by (auto simp: table_wf_def INVALID_PAGE_ID_def)

lemma find_snoc: "find P xs = None \<Longrightarrow> P x \<Longrightarrow> find P (xs @ [x]) = Some x"
  by (induction xs) (auto split: if_splits)

lemma Lookup_after_Insert:
  assumes "bucket_Insert c key value b = (True, b')" "c key key = 0"
  shows "Lookup c b' key = Some value"
proof -
  have n: "find (\<lambda>e. c (fst e) key = 0) (array b) = None"
  proof (cases "find (\<lambda>e. c (fst e) key = 0) (array b)")
    case None
    then show ?thesis .
  next
    case (Some e)
    with assms(1) show ?thesis by (simp add: bucket_Insert_def split: if_splits)
  qed
  with assms(1) have b': "b' = b\<lparr>array := array b @ [(key, value)]\<rparr>"
    by (simp add: bucket_Insert_def split: if_splits)
  from n assms(2)
  have "find (\<lambda>e. c (fst e) key = 0) (array b @ [(key, value)]) = Some (key, value)"
    by (intro find_snoc) simp_all
  then show ?thesis by (simp add: Lookup_def b')
qed

lemma HashToDirectoryIndex_bound: "HashToDirectoryIndex h hash < header_MaxSize h"
proof (cases "h_max_depth h = 0")
  case True
  then show ?thesis by (simp add: HashToDirectoryIndex_def header_MaxSize_def)
next
  case False
  have "unat (drop_bit (32 - h_max_depth h) hash) = drop_bit (32 - h_max_depth h) (unat hash)"
    by (rule unat_drop_bit_eq)
  also have "\<dots> = unat hash div 2 ^ (32 - h_max_depth h)" by (rule drop_bit_eq_div)
  finally have "unat (drop_bit (32 - h_max_depth h) hash) = unat hash div 2 ^ (32 - h_max_depth h)" .
  moreover have "unat hash div 2 ^ (32 - h_max_depth h) < 2 ^ h_max_depth h"
  proof (cases "h_max_depth h \<le> 32")
    case True
    have "unat hash < 2 ^ 32" using unsigned_less [of hash, where 'a = nat] by simp
    also have "(2 :: nat) ^ 32 = 2 ^ h_max_depth h * 2 ^ (32 - h_max_depth h)"
      using True by (simp add: power_add [symmetric])
    finally show ?thesis by (simp add: less_mult_imp_div_less)
  next
    case False
    have "unat hash < 2 ^ 32" using unsigned_less [of hash, where 'a = nat] by simp
    also have "(2 :: nat) ^ 32 \<le> 2 ^ h_max_depth h" using False by (intro power_increasing) simp_all
    finally show ?thesis using False by simp
  qed
  ultimately show ?thesis using False by (simp add: HashToDirectoryIndex_def header_MaxSize_def)
qed

lemma GetValue_found:
  assumes "fetch_header t (header_page_id t) = Some h"
    and "GetDirectoryPageId h (HashToDirectoryIndex h (Hash t key)) = did" "did \<noteq> INVALID_PAGE_ID"
    and "fetch_directory t did = Some d"
    and "GetBucketPageId d (HashToBucketIndex d (Hash t key)) = Some bid" "bid \<noteq> INVALID_PAGE_ID"
    and "fetch_bucket t bid = Some b" "Lookup (cmp t) b key = Some v"
  shows "GetValue t key = Some (Some v)"
  using assms by (simp add: GetValue_def Let_def)

lemma InsertToNewBucket_get:
  assumes wf: "table_wf t"
    and h: "fetch_header t (header_page_id t) = Some h"
    and did: "GetDirectoryPageId h (HashToDirectoryIndex h (Hash t key)) = did" "did \<noteq> INVALID_PAGE_ID"
    and d: "fetch_directory t did = Some d"
    and ins: "InsertToNewBucket t did (HashToBucketIndex d (Hash t key)) key value = Some (True, t')"
    and refl: "cmp t key key = 0"
  shows "GetValue t' key = Some (Some value)"
proof -
  let ?n = "ht_next_page_id t"
  let ?idx = "HashToBucketIndex d (Hash t key)"
  let ?d' = "d\<lparr>bucket_page_ids := (bucket_page_ids d)(?idx := ?n)\<rparr>"
  obtain ok bp where bi: "bucket_Insert (cmp t) key value (bucket_Init (bucket_max_size t)) = (ok, bp)"
    by (cases "bucket_Insert (cmp t) key value (bucket_Init (bucket_max_size t))")
  from ins d bi have arr: "in_directory_array ?idx" and ok: "ok"
    and t': "t' = write_page ?n (BucketPage bp)
                   (write_page did (DirectoryPage ?d') (t\<lparr>ht_next_page_id := ?n + 1\<rparr>))"
    by (auto simp: InsertToNewBucket_def Let_def fetch_next_fields SetBucketPageId_def
        split: if_splits Option.bind_splits)
  from fetched_below(1) [OF wf h] have hn: "header_page_id t \<noteq> ?n" by simp
  from fetched_below(2) [OF wf d] have dn: "did \<noteq> ?n" by simp
  from fetched_distinct(1) [OF h d] have hd: "header_page_id t \<noteq> did" .
  have idx: "HashToBucketIndex ?d' (Hash t key) = ?idx"
    by (simp add: HashToBucketIndex_def GetGlobalDepthMask_def)
  have 1: "fetch_header t' (header_page_id t') = Some h"
    using h hn hd by (simp add: t' fetch_write write_page_fields fetch_next_fields)
  have 2: "fetch_directory t' did = Some ?d'"
    using dn by (simp add: t' fetch_write)
  have 3: "GetBucketPageId ?d' (HashToBucketIndex ?d' (Hash t' key)) = Some ?n"
    using arr idx by (simp add: t' write_page_fields fetch_next_fields GetBucketPageId_def)
  have 4: "fetch_bucket t' ?n = Some bp" by (simp add: t' fetch_write)
  from bi ok refl have 5: "Lookup (cmp t') bp key = Some value"
    using Lookup_after_Insert [of "cmp t" key "value" "bucket_Init (bucket_max_size t)" bp]
    by (simp add: t' write_page_fields)
  have 6: "GetDirectoryPageId h (HashToDirectoryIndex h (Hash t' key)) = did"
    using did(1) by (simp add: t' write_page_fields fetch_next_fields)
  from GetValue_found [OF 1 6 did(2) 2 3 wf_next [OF wf] 4 5] show ?thesis .
qed

lemma SetDirectoryPageId_depth: "h_max_depth (SetDirectoryPageId i p h) = h_max_depth h"
  by (simp add: SetDirectoryPageId_def)

lemma SetDirectoryPageId_index:
  "HashToDirectoryIndex (SetDirectoryPageId i p h) hash = HashToDirectoryIndex h hash"
  by (simp add: HashToDirectoryIndex_def SetDirectoryPageId_depth)

lemma GetDirectoryPageId_Set:
  "i < header_MaxSize h \<Longrightarrow> GetDirectoryPageId (SetDirectoryPageId i p h) i = p"
  by (simp add: GetDirectoryPageId_def SetDirectoryPageId_def header_MaxSize_def)

lemma InsertToNewDirectory_get:
  assumes wf: "table_wf t"
    and h: "fetch_header t (header_page_id t) = Some h"
    and ins: "InsertToNewDirectory t (HashToDirectoryIndex h (Hash t key)) (Hash t key) key value
                = Some (True, t')"
    and refl: "cmp t key key = 0"
  shows "GetValue t' key = Some (Some value)"
proof -
  let ?n = "ht_next_page_id t"
  let ?idx = "HashToDirectoryIndex h (Hash t key)"
  let ?h' = "SetDirectoryPageId ?idx ?n h"
  from ins h obtain dp where dp: "directory_Init (directory_max_depth t) = Some dp"
    by (auto simp: InsertToNewDirectory_def Let_def split: Option.bind_splits)
  let ?t2 = "write_page (header_page_id t) (HeaderPage ?h')
               (write_page ?n (DirectoryPage dp) (t\<lparr>ht_next_page_id := ?n + 1\<rparr>))"
  from ins h dp have nb: "InsertToNewBucket ?t2 ?n (HashToBucketIndex dp (Hash t key)) key value
      = Some (True, t')"
    by (simp add: InsertToNewDirectory_def Let_def fetch_next_fields)
  from fetched_below(1) [OF wf h] have hn: "header_page_id t < ?n" .
  have wf2: "table_wf ?t2"
    using hn by (intro wf_write_existing [OF wf_write_new [OF wf]]) (simp add: write_page_fields)
  have h2: "fetch_header ?t2 (header_page_id ?t2) = Some ?h'"
    by (simp add: fetch_write write_page_fields)
  have hash2: "Hash ?t2 = Hash t" by (simp add: write_page_fields fetch_next_fields)
  have did: "GetDirectoryPageId ?h' (HashToDirectoryIndex ?h' (Hash ?t2 key)) = ?n"
    unfolding hash2 SetDirectoryPageId_index
    by (rule GetDirectoryPageId_Set [OF HashToDirectoryIndex_bound])
  have d2: "fetch_directory ?t2 ?n = Some dp"
    using hn by (simp add: fetch_write)
  have c2: "cmp ?t2 key key = 0" using refl by (simp add: write_page_fields)
  from nb have nb': "InsertToNewBucket ?t2 ?n (HashToBucketIndex dp (Hash ?t2 key)) key value
      = Some (True, t')" by (simp only: hash2)
  from InsertToNewBucket_get [OF wf2 h2 did wf_next [OF wf] d2 nb' c2] show ?thesis .
qed

lemma direct_insert_get:
  assumes h: "fetch_header t (header_page_id t) = Some h"
    and did: "GetDirectoryPageId h (HashToDirectoryIndex h (Hash t key)) = did" "did \<noteq> INVALID_PAGE_ID"
    and d: "fetch_directory t did = Some d"
    and bid: "GetBucketPageId d (HashToBucketIndex d (Hash t key)) = Some bid" "bid \<noteq> INVALID_PAGE_ID"
    and b: "fetch_bucket t bid = Some b"
    and ins: "bucket_Insert (cmp t) key value b = (True, b')"
    and refl: "cmp t key key = 0"
  shows "GetValue (write_page bid (BucketPage b') t) key = Some (Some value)"
proof -
  let ?t' = "write_page bid (BucketPage b') t"
  from fetched_distinct(2) [OF h b] have 1: "fetch_header ?t' (header_page_id ?t') = Some h"
    using h by (simp add: fetch_write write_page_fields)
  from fetched_distinct(3) [OF d b] have 2: "fetch_directory ?t' did = Some d"
    using d by (simp add: fetch_write)
  have 3: "fetch_bucket ?t' bid = Some b'" by (simp add: fetch_write)
  from Lookup_after_Insert [OF ins refl] have 4: "Lookup (cmp ?t') b' key = Some value"
    by (simp add: write_page_fields)
  from did(1) have 5: "GetDirectoryPageId h (HashToDirectoryIndex h (Hash ?t' key)) = did"
    by (simp add: write_page_fields)
  from bid(1) have 6: "GetBucketPageId d (HashToBucketIndex d (Hash ?t' key)) = Some bid"
    by (simp add: write_page_fields)
  from GetValue_found [OF 1 5 did(2) 2 6 bid(2) 3 4] show ?thesis .
qed

lemma SplitBucket_wf:
  assumes wf: "table_wf t" and d: "did < ht_next_page_id t" and f: "fid < ht_next_page_id t"
    and s: "SplitBucket t did fid idx = Some (ok, t')"
  shows "table_wf t' \<and> cmp t' = cmp t"
proof -
  let ?n = "ht_next_page_id t"
  let ?t1 = "write_page ?n (BucketPage (bucket_Init (bucket_max_size t))) (t\<lparr>ht_next_page_id := ?n + 1\<rparr>)"
  have wf1: "table_wf ?t1" by (rule wf_write_new [OF wf])
  have n1: "ht_next_page_id ?t1 = ?n + 1" by (simp add: write_page_fields)
  have w: "table_wf (write_page p c u)" if "table_wf u" "ht_next_page_id u = ?n + 1" "p < ?n + 1"
    for p c and u :: "('a, 'b) DiskExtendibleHashTable"
    using that by (intro wf_write_existing) simp_all
  from d f have d1: "did < ?n + 1" and f1: "fid < ?n + 1" by simp_all
  from s show ?thesis
    using wf1 n1 d1 f1
    by (auto simp: SplitBucket_def Let_def write_page_fields intro!: w
        split: if_splits Option.bind_splits prod.splits)
qed

lemma InsertToNewBucket_wf:
  assumes wf: "table_wf t" and d: "did < ht_next_page_id t"
    and ins: "InsertToNewBucket t did idx key value = Some (ok, t')"
  shows "table_wf t' \<and> cmp t' = cmp t"
proof -
  let ?n = "ht_next_page_id t"
  from ins obtain c1 c2 where t': "t' = write_page ?n c1 (write_page did c2 (t\<lparr>ht_next_page_id := ?n + 1\<rparr>))"
    by (auto simp: InsertToNewBucket_def Let_def split: Option.bind_splits prod.splits)
  have "write_page ?n c1 (write_page did c2 (t\<lparr>ht_next_page_id := ?n + 1\<rparr>))
      = write_page did c2 (write_page ?n c1 (t\<lparr>ht_next_page_id := ?n + 1\<rparr>))"
    using d by (simp add: write_page_def fun_upd_twist)
  moreover have "table_wf (write_page did c2 (write_page ?n c1 (t\<lparr>ht_next_page_id := ?n + 1\<rparr>)))"
    using d by (intro wf_write_existing [OF wf_write_new [OF wf]]) (simp add: write_page_fields)
  ultimately show ?thesis by (simp add: t' write_page_fields)
qed

lemma InsertToNewDirectory_wf:
  assumes wf: "table_wf t" and h: "fetch_header t (header_page_id t) = Some h"
    and ins: "InsertToNewDirectory t idx hash key value = Some (ok, t')"
  shows "table_wf t' \<and> cmp t' = cmp t"
proof -
  let ?n = "ht_next_page_id t"
  from ins h obtain dp bidx where nb: "InsertToNewBucket
      (write_page (header_page_id t) (HeaderPage (SetDirectoryPageId idx ?n h))
         (write_page ?n (DirectoryPage dp) (t\<lparr>ht_next_page_id := ?n + 1\<rparr>)))
      ?n bidx key value = Some (ok, t')"
    by (auto simp: InsertToNewDirectory_def Let_def fetch_next_fields split: Option.bind_splits)
  let ?t2 = "write_page (header_page_id t) (HeaderPage (SetDirectoryPageId idx ?n h))
         (write_page ?n (DirectoryPage dp) (t\<lparr>ht_next_page_id := ?n + 1\<rparr>))"
  from fetched_below(1) [OF wf h] have hn: "header_page_id t < ?n" .
  have wf2: "table_wf ?t2"
    using hn by (intro wf_write_existing [OF wf_write_new [OF wf]]) (simp add: write_page_fields)
  have "?n < ht_next_page_id ?t2" by (simp add: write_page_fields)
  from InsertToNewBucket_wf [OF wf2 this nb] show ?thesis by (simp add: write_page_fields)
qed

lemma ht_Insert_cases:
  assumes ins: "ht_Insert (Suc fuel) t key value = Some (r, t')"
  obtains (found) "r = False" "t' = t"
  | (new_directory) h where "fetch_header t (header_page_id t) = Some h"
      "InsertToNewDirectory t (HashToDirectoryIndex h (Hash t key)) (Hash t key) key value = Some (r, t')"
  | (new_bucket) h d where "fetch_header t (header_page_id t) = Some h"
      "GetDirectoryPageId h (HashToDirectoryIndex h (Hash t key)) \<noteq> INVALID_PAGE_ID"
      "fetch_directory t (GetDirectoryPageId h (HashToDirectoryIndex h (Hash t key))) = Some d"
      "InsertToNewBucket t (GetDirectoryPageId h (HashToDirectoryIndex h (Hash t key)))
         (HashToBucketIndex d (Hash t key)) key value = Some (r, t')"
  | (direct) h d bid b b' where "fetch_header t (header_page_id t) = Some h"
      "GetDirectoryPageId h (HashToDirectoryIndex h (Hash t key)) \<noteq> INVALID_PAGE_ID"
      "fetch_directory t (GetDirectoryPageId h (HashToDirectoryIndex h (Hash t key))) = Some d"
      "GetBucketPageId d (HashToBucketIndex d (Hash t key)) = Some bid" "bid \<noteq> INVALID_PAGE_ID"
      "fetch_bucket t bid = Some b" "bucket_Insert (cmp t) key value b = (True, b')"
      "r = True" "t' = write_page bid (BucketPage b') t"
  | (split) h d bid b d3 ok t2 where "fetch_header t (header_page_id t) = Some h"
      "fetch_directory t (GetDirectoryPageId h (HashToDirectoryIndex h (Hash t key))) = Some d"
      "fetch_bucket t bid = Some b"
      "SplitBucket (write_page (GetDirectoryPageId h (HashToDirectoryIndex h (Hash t key)))
                      (DirectoryPage d3) t)
         (GetDirectoryPageId h (HashToDirectoryIndex h (Hash t key))) bid
         (HashToBucketIndex d (Hash t key)) = Some (ok, t2)"
      "if ok then ht_Insert fuel t2 key value = Some (r, t') else r = False \<and> t' = t2"
proof -
  from ins obtain vf where gv: "GetValue t key = Some vf" by (auto split: Option.bind_splits)
  show ?thesis
  proof (cases vf)
    case (Some v)
    with ins gv have "r = False" "t' = t" by simp_all
    then show ?thesis by (rule found)
  next
    case None
    with ins gv obtain h where h: "fetch_header t (header_page_id t) = Some h"
      by (auto split: Option.bind_splits)
    let ?did = "GetDirectoryPageId h (HashToDirectoryIndex h (Hash t key))"
    show ?thesis
    proof (cases "?did = INVALID_PAGE_ID")
      case True
      with ins gv None h have "InsertToNewDirectory t (HashToDirectoryIndex h (Hash t key)) (Hash t key)
          key value = Some (r, t')" by (simp add: Let_def)
      with h show ?thesis by (rule new_directory)
    next
      case nd: False
      with ins gv None h obtain d where d: "fetch_directory t ?did = Some d"
        by (auto simp: Let_def split: Option.bind_splits)
      let ?bidx = "HashToBucketIndex d (Hash t key)"
      from ins gv None h nd d obtain bid where bid: "GetBucketPageId d ?bidx = Some bid"
        by (auto simp: Let_def split: Option.bind_splits)
      show ?thesis
      proof (cases "bid = INVALID_PAGE_ID")
        case True
        with ins gv None h nd d bid have "InsertToNewBucket t ?did ?bidx key value = Some (r, t')"
          by (simp add: Let_def)
        with h nd d show ?thesis by (rule new_bucket)
      next
        case nb: False
        with ins gv None h nd d bid obtain b where b: "fetch_bucket t bid = Some b"
          by (auto simp: Let_def split: Option.bind_splits)
        obtain okb b' where bi: "bucket_Insert (cmp t) key value b = (okb, b')"
          by (cases "bucket_Insert (cmp t) key value b")
        show ?thesis
        proof (cases okb)
          case True
          with ins gv None h nd d bid nb b bi have "r = True" "t' = write_page bid (BucketPage b') t"
            by (simp_all add: Let_def)
          with h nd d bid nb b bi True show ?thesis by (intro direct) simp_all
        next
          case False
          with ins gv None h nd d bid nb b bi obtain ld where ld: "GetLocalDepth d ?bidx = Some ld"
            by (auto simp: Let_def split: Option.bind_splits)
          show ?thesis
          proof (cases "ld = global_depth d \<and> global_depth d \<ge> d_max_depth d")
            case True
            with ins gv None h nd d bid nb b bi False ld have "r = False" "t' = t"
              by (simp_all add: Let_def)
            then show ?thesis by (rule found)
          next
            case ns: False
            let ?d1o = "if ld = global_depth d
                        then do {
                          d' \<leftarrow> IncrGlobalDepth d;
                          copy_slots (2 ^ global_depth d) 0 (2 ^ global_depth d' - 2 ^ global_depth d) d'
                        }
                        else Some d"
            from ins gv None h nd d bid nb b bi False ld ns obtain d1 where d1: "?d1o = Some d1"
              by (cases ?d1o) (auto simp: Let_def)
            from ins gv None h nd d bid nb b bi False ld ns d1
            obtain d2 where d2: "IncrLocalDepth ?bidx d1 = Some d2"
              by (cases "IncrLocalDepth ?bidx d1") (auto simp: Let_def)
            from ins gv None h nd d bid nb b bi False ld ns d1 d2
            obtain d3 where d3: "IncrLocalDepth (?bidx + 2 ^ global_depth d) d2 = Some d3"
              by (cases "IncrLocalDepth (?bidx + 2 ^ global_depth d) d2") (auto simp: Let_def)
            from ins gv None h nd d bid nb b bi False ld ns d1 d2 d3
            obtain ok t2 where sp: "SplitBucket (write_page ?did (DirectoryPage d3) t) ?did bid ?bidx
                = Some (ok, t2)"
              by (cases "SplitBucket (write_page ?did (DirectoryPage d3) t) ?did bid ?bidx")
                (auto simp: Let_def)
            from ins gv None h nd d bid nb b bi False ld ns d1 d2 d3 sp
            have "if ok then ht_Insert fuel t2 key value = Some (r, t') else r = False \<and> t' = t2"
              by (auto simp: Let_def)
            with h d b sp show ?thesis by (rule split)
          qed
        qed
      qed
    qed
  qed
qed

lemma new_table_wf:
  assumes "new_DiskExtendibleHashTable p c hf hdepth ddepth bsize = Some t" "0 \<le> p"
  shows "table_wf t"
  using assms
  by (auto simp: new_DiskExtendibleHashTable_def table_wf_def split: Option.bind_splits)

lemma ht_Insert_wf:
  "ht_Insert fuel t key value = Some (r, t') \<Longrightarrow> table_wf t \<Longrightarrow> table_wf t' \<and> cmp t' = cmp t"
proof (induction fuel arbitrary: t)
  case 0
  then show ?case by simp
next
  case (Suc fuel)
  note wf = Suc.prems(2)
  from Suc.prems(1) show ?case
  proof (cases rule: ht_Insert_cases)
    case found
    with wf show ?thesis by simp
  next
    case (new_directory h)
    from InsertToNewDirectory_wf [OF wf new_directory] show ?thesis .
  next
    case (new_bucket h d)
    from InsertToNewBucket_wf [OF wf fetched_below(2) [OF wf new_bucket(3)] new_bucket(4)]
    show ?thesis .
  next
    case (direct h d bid b b')
    from wf_write_existing [OF wf fetched_below(3) [OF wf direct(6)]] direct(9)
    show ?thesis by (simp add: write_page_fields)
  next
    case (split h d bid b d3 ok t2)
    let ?did = "GetDirectoryPageId h (HashToDirectoryIndex h (Hash t key))"
    let ?t1 = "write_page ?did (DirectoryPage d3) t"
    from fetched_below(2) [OF wf split(2)] have dl: "?did < ht_next_page_id t" .
    from fetched_below(3) [OF wf split(3)] have bl: "bid < ht_next_page_id t" .
    have wf1: "table_wf ?t1" by (rule wf_write_existing [OF wf dl])
    from dl bl have "?did < ht_next_page_id ?t1" "bid < ht_next_page_id ?t1"
      by (simp_all add: write_page_fields)
    from SplitBucket_wf [OF wf1 this split(4)] have wf2: "table_wf t2" and c2: "cmp t2 = cmp t"
      by (simp_all add: write_page_fields)
    show ?thesis
    proof (cases ok)
      case True
      with split(5) have "ht_Insert fuel t2 key value = Some (r, t')" by simp
      from Suc.IH [OF this wf2] c2 show ?thesis by simp
    next
      case False
      with split(5) wf2 c2 show ?thesis by simp
    qed
  qed
qed

lemma ht_Insert_get:
  "ht_Insert fuel t key value = Some (True, t') \<Longrightarrow> table_wf t \<Longrightarrow> cmp t key key = 0
     \<Longrightarrow> GetValue t' key = Some (Some value)"
proof (induction fuel arbitrary: t)
  case 0
  then show ?case by simp
next
  case (Suc fuel)
  note wf = Suc.prems(2) and refl = Suc.prems(3)
  from Suc.prems(1) show ?case
  proof (cases rule: ht_Insert_cases)
    case found
    then show ?thesis by simp
  next
    case (new_directory h)
    from InsertToNewDirectory_get [OF wf new_directory refl] show ?thesis .
  next
    case (new_bucket h d)
    have e: "GetDirectoryPageId h (HashToDirectoryIndex h (Hash t key))
        = GetDirectoryPageId h (HashToDirectoryIndex h (Hash t key))" ..
    from InsertToNewBucket_get [OF wf new_bucket(1) e new_bucket(2) new_bucket(3) new_bucket(4) refl]
    show ?thesis .
  next
    case (direct h d bid b b')
    have e: "GetDirectoryPageId h (HashToDirectoryIndex h (Hash t key))
        = GetDirectoryPageId h (HashToDirectoryIndex h (Hash t key))" ..
    from direct_insert_get [OF direct(1) e direct(2) direct(3) direct(4) direct(5) direct(6) direct(7) refl]
      direct(9)
    show ?thesis by simp
  next
    case (split h d bid b d3 ok t2)
    let ?did = "GetDirectoryPageId h (HashToDirectoryIndex h (Hash t key))"
    let ?t1 = "write_page ?did (DirectoryPage d3) t"
    from fetched_below(2) [OF wf split(2)] have dl: "?did < ht_next_page_id t" .
    from fetched_below(3) [OF wf split(3)] have bl: "bid < ht_next_page_id t" .
    have wf1: "table_wf ?t1" by (rule wf_write_existing [OF wf dl])
    from dl bl have "?did < ht_next_page_id ?t1" "bid < ht_next_page_id ?t1"
      by (simp_all add: write_page_fields)
    from SplitBucket_wf [OF wf1 this split(4)] have wf2: "table_wf t2" and c2: "cmp t2 = cmp t"
      by (simp_all add: write_page_fields)
    from split(5) have ok: "ok" and rec: "ht_Insert fuel t2 key value = Some (True, t')"
      by (auto split: if_splits)
    from refl c2 have "cmp t2 key key = 0" by simp
    from Suc.IH [OF rec wf2 this] show ?thesis .
  qed
qed


text \<open>
  A table is well formed when the pages of its store lie below the next page identifier of
  the pool, which is not negative; the constructor makes such a table and \<open>Insert\<close> keeps it
  so.  In a well-formed table whose comparator finds a key equal to itself: when \<open>Insert\<close>
  returns true, \<open>GetValue\<close> on the table it leaves finds the value inserted, and the next
  \<open>Insert\<close> of the key returns false and leaves the table as it is.
\<close>

theorem insert_then_get:
  assumes "table_wf tbl" "cmp tbl key key = 0" "ht_Insert fuel tbl key value = Some (True, tbl')"
  shows "table_wf tbl' \<and> GetValue tbl' key = Some (Some value)
       \<and> ht_Insert (Suc fuel') tbl' key value' = Some (False, tbl')"
proof -
  from ht_Insert_get [OF assms(3) assms(1) assms(2)] have "GetValue tbl' key = Some (Some value)" .
  with ht_Insert_wf [OF assms(3) assms(1)] show ?thesis by simp
qed

theorem insert_then_get_witness:
  "map_option fst (ht_Insert 10 small_table 0 10) = Some True
   \<and> GetValue one_key_table 0 = Some (Some 10)
   \<and> ht_Insert (Suc 0) one_key_table 0 99 = Some (False, one_key_table)"
proof -
  have a: "map_option fst (ht_Insert 10 small_table 0 10) = Some True" by code_simp
  then have b: "ht_Insert 10 small_table 0 10 = Some (True, one_key_table)"
    by (cases "ht_Insert 10 small_table 0 10") (auto simp: one_key_table_def)
  have "new_DiskExtendibleHashTable 0 word_cmp (\<lambda>k. k) 0 3 1 = Some small_table"
    by (simp add: small_table_def new_DiskExtendibleHashTable_def header_Init_def
        HTABLE_HEADER_ARRAY_SIZE_def)
  from new_table_wf [OF this] have wf: "table_wf small_table" by simp
  have c: "cmp small_table 0 0 = 0"
    by (simp add: small_table_def new_DiskExtendibleHashTable_def header_Init_def
        HTABLE_HEADER_ARRAY_SIZE_def word_cmp_def)
  from insert_then_get [OF wf c b, of 0 99] a show ?thesis by simp
qed

subsection \<open>Trie\<close>

text \<open>
  C1.  The claim fails for a key that ends in the character \<open>'\0'\<close>: \<open>Put\<close> takes
  \<open>key_back == '\0'\<close> for the empty key, so for the one-character key \<open>"\0"\<close> on the empty
  trie it makes the root a value node, and \<open>Get\<close> of the same key finds nothing; the value
  is found under the empty key instead.
\<close>

theorem put_nul_key_lost:
  "trie_Put None [CHR 0x00] (U32 1) = Some (TrieNode [] (Some (U32 1)))
   \<and> trie_Get TU32 (trie_Put None [CHR 0x00] (U32 1)) [CHR 0x00] = None
   \<and> trie_Get TU32 (trie_Put None [CHR 0x00] (U32 1)) [] = Some (U32 1)"
  by (simp add: trie_Put_def trie_Get_def CreateNodeWithValueAndCopyChild_def)

lemma map_of_emplace_other: "c' \<noteq> c \<Longrightarrow> map_of (emplace c' n cs) c = map_of cs c"
  by (simp add: emplace_def update_conv')

lemma back_fold_inv:
  assumes "fst acc \<longrightarrow> (\<exists>n. map_of (snd acc) kb = Some n \<and> node_value n = Some v)"
  shows "fst (fold (back_step kb v) xs acc)
     \<longrightarrow> (\<exists>n. map_of (snd (fold (back_step kb v) xs acc)) kb = Some n \<and> node_value n = Some v)"
  using assms
proof (induction xs arbitrary: acc)
  case Nil
  then show ?case by simp
next
  case (Cons x xs)
  show ?case
    unfolding fold_simps
    by (rule Cons.IH)
       (use Cons.prems in \<open>auto simp: back_step_def update_conv' map_of_emplace_other
           CreateNodeWithValueAndCopyChild_def\<close>)
qed

lemma head_fold_inv:
  assumes "fst acc \<longrightarrow> map_of (snd acc) c \<noteq> None"
  shows "fst (fold (head_step c) xs acc) \<longrightarrow> map_of (snd (fold (head_step c) xs acc)) c \<noteq> None"
  using assms
proof (induction xs arbitrary: acc)
  case Nil
  then show ?case by simp
next
  case (Cons x xs)
  show ?case
    unfolding fold_simps
    by (rule Cons.IH)
       (use Cons.prems in \<open>auto simp: head_step_def update_conv' map_of_emplace_other\<close>)
qed

lemma put_back_child:
  "\<exists>n. map_of (children (put_back kb v cur_old cur_new)) kb = Some n \<and> node_value n = Some v"
proof (cases cur_old)
  case None
  then show ?thesis by (simp add: put_back_def update_conv')
next
  case (Some old)
  obtain e cs where f: "fold (back_step kb v) (children old) (False, children cur_new) = (e, cs)"
    by (cases "fold (back_step kb v) (children old) (False, children cur_new)")
  from back_fold_inv [of "(False, children cur_new)" kb v "children old"] f
  have "e \<longrightarrow> (\<exists>n. map_of cs kb = Some n \<and> node_value n = Some v)" by simp
  with Some f show ?thesis by (auto simp: put_back_def update_conv')
qed

lemma walk_put_head:
  "\<exists>n. walk (put_head key_head kb v cur_old cur_new) (key_head @ [kb]) = Some n \<and> node_value n = Some v"
proof (induction key_head arbitrary: cur_old cur_new)
  case Nil
  from put_back_child [of kb v cur_old cur_new] show ?case by auto
next
  case (Cons c key_head)
  obtain e cs where acc: "(case cur_old of
                           Some old \<Rightarrow> fold (head_step c) (children old) (False, children cur_new)
                         | None \<Rightarrow> (False, children cur_new)) = (e, cs)"
    by (cases "(case cur_old of
                           Some old \<Rightarrow> fold (head_step c) (children old) (False, children cur_new)
                         | None \<Rightarrow> (False, children cur_new))")
  define cs' where "cs' = (if \<not> e then AList.update c (TrieNode [] None) cs else cs)"
  define cur_old' where "cur_old' = (if e then map_of (children (the cur_old)) c else None)"
  have "e \<longrightarrow> map_of cs c \<noteq> None"
  proof (cases cur_old)
    case None
    with acc show ?thesis by simp
  next
    case (Some old)
    with acc have f: "fold (head_step c) (children old) (False, children cur_new) = (e, cs)" by simp
    from head_fold_inv [of "(False, children cur_new)" c "children old"] f show ?thesis by simp
  qed
  then have "map_of cs' c \<noteq> None"
    by (cases e) (simp_all add: cs'_def update_conv')
  then obtain child where child: "map_of cs' c = Some child" by blast
  have "put_head (c # key_head) kb v cur_old cur_new
      = (case map_of cs' c of
           None \<Rightarrow> TrieNode cs' (node_value cur_new)
         | Some child \<Rightarrow>
             TrieNode (AList.update c (put_head key_head kb v cur_old' child) cs')
               (node_value cur_new))"
    unfolding put_head.simps acc cs'_def cur_old'_def by (simp add: Let_def)
  with child have "put_head (c # key_head) kb v cur_old cur_new
      = TrieNode (AList.update c (put_head key_head kb v cur_old' child) cs') (node_value cur_new)"
    by simp
  with Cons.IH [of cur_old' child] show ?case by (simp add: update_conv')
qed

text \<open>
  For every other key (the empty key, and every key whose last character is not \<open>'\0'\<close>)
  \<open>Get\<close> after \<open>Put\<close> returns the value put, in every trie.
\<close>

theorem trie_put_get:
  assumes "key = [] \<or> last key \<noteq> CHR 0x00"
  shows "trie_Get (type_of v) (trie_Put trie key v) key = Some v"
proof (cases "key = []")
  case True
  then show ?thesis
    by (simp add: trie_Put_def trie_Get_def CreateNodeWithValueAndCopyChild_def)
next
  case False
  with assms have nz: "last key \<noteq> CHR 0x00" by simp
  from False have key: "key = butlast key @ [last key]" by simp
  define cur_new where "cur_new = (case trie of Some r \<Rightarrow> Clone r | None \<Rightarrow> TrieNode [] None)"
  from walk_put_head [of "butlast key" "last key" v trie cur_new] key
  obtain n where "walk (put_head (butlast key) (last key) v trie cur_new) key = Some n"
    "node_value n = Some v" by auto
  moreover have "trie_Put trie key v = Some (put_head (butlast key) (last key) v trie cur_new)"
    using False nz by (simp add: trie_Put_def cur_new_def)
  ultimately show ?thesis by (simp add: trie_Get_def)
qed

lemma walk_relink: "walk (relink st n) (rev (map snd st) @ rest) = walk n rest"
proof (induction st arbitrary: n rest)
  case Nil
  show ?case by simp
next
  case (Cons p st)
  obtain father c where p: "p = (father, c)" by (cases p)
  have "walk (relink (p # st) n) (rev (map snd (p # st)) @ rest)
      = walk (relink st (TrieNode (AList.update c n (children father)) (node_value father)))
          (rev (map snd st) @ (c # rest))"
    by (simp add: p)
  also have "\<dots> = walk (TrieNode (AList.update c n (children father)) (node_value father)) (c # rest)"
    by (rule Cons.IH)
  also have "\<dots> = walk n rest" by (simp add: update_conv')
  finally show ?case .
qed

lemma walk_prune:
  "prune st = Some r \<Longrightarrow> walk r (rev (map snd st) @ rest) = None"
proof (induction st arbitrary: rest)
  case Nil
  then show ?case by simp
next
  case (Cons p st)
  obtain father c where p: "p = (father, c)" by (cases p)
  define father' where "father' = TrieNode (AList.delete c (children father)) (node_value father)"
  have path: "rev (map snd (p # st)) @ rest = rev (map snd st) @ (c # rest)" by (simp add: p)
  have ps: "prune (p # st) = (if \<not> is_value_node father' \<and> children father' = []
      then prune st else Some (relink st father'))"
    unfolding p prune.simps father'_def Let_def ..
  show ?case
  proof (cases "\<not> is_value_node father' \<and> children father' = []")
    case True
    with Cons.prems ps have "prune st = Some r" by simp
    from Cons.IH [OF this] show ?thesis unfolding path .
  next
    case False
    with Cons.prems ps have r: "r = relink st father'" by auto
    have "walk father' (c # rest) = None" by (simp add: father'_def delete_conv')
    then show ?thesis unfolding path r walk_relink .
  qed
qed

lemma remove_descend_path:
  "remove_descend key cur st = Some (st', cur') \<Longrightarrow> rev (map snd st') = rev (map snd st) @ key"
  by (induction key arbitrary: cur st) (auto split: option.splits)

lemma remove_descend_None:
  "remove_descend key cur st = None \<Longrightarrow> walk cur key = None"
  by (induction key arbitrary: cur st) (auto simp: Clone_def split: option.splits)

lemma remove_descend_walk:
  "remove_descend key cur st = Some (st', cur') \<Longrightarrow> walk cur key = Some cur'"
  by (induction key arbitrary: cur st) (auto simp: Clone_def split: option.splits)

lemma Clone_id: "Clone n = n"
  by (simp add: Clone_def)

text \<open>
  \<open>Get\<close> after \<open>Remove\<close> returns nothing, for every trie, key and value type; in
  particular for the trie that \<open>Put\<close> returned for that key.
\<close>

theorem trie_remove_get: "trie_Get T (trie_Remove trie key) key = None"
proof (cases trie)
  case None
  then show ?thesis by (simp add: trie_Remove_def trie_Get_def)
next
  case (Some r)
  show ?thesis
  proof (cases "remove_descend key (Clone r) []")
    case None
    from remove_descend_None [OF None] Some None show ?thesis
      by (simp add: trie_Remove_def trie_Get_def Clone_id)
  next
    case (Some result)
    obtain st cur where result: "result = (st, cur)" by (cases result)
    from Some result have d: "remove_descend key (Clone r) [] = Some (st, cur)" by simp
    from remove_descend_path [OF d] have path: "rev (map snd st) = key" by simp
    from remove_descend_walk [OF d] have w: "walk r key = Some cur" by (simp add: Clone_id)
    show ?thesis
    proof (cases "is_value_node cur")
      case False
      with d w \<open>trie = Some r\<close> show ?thesis
        by (simp add: trie_Remove_def trie_Get_def is_value_node_def)
    next
      case True
      show ?thesis
      proof (cases "children cur = []")
        case False
        have "walk (relink st (TrieNode (children cur) None)) key = Some (TrieNode (children cur) None)"
          using walk_relink [of st "TrieNode (children cur) None" "[]"] path by simp
        with d True False \<open>trie = Some r\<close> show ?thesis
          by (simp add: trie_Remove_def trie_Get_def)
      next
        case e: True
        have "trie_Remove trie key = prune st"
          using d True e \<open>trie = Some r\<close> by (simp add: trie_Remove_def)
        moreover have "trie_Get T (prune st) key = None"
        proof (cases "prune st")
          case None
          then show ?thesis by (simp add: trie_Get_def)
        next
          case (Some r')
          from walk_prune [OF Some, of "[]"] path have "walk r' key = None" by simp
          with Some show ?thesis by (simp add: trie_Get_def)
        qed
        ultimately show ?thesis by simp
      qed
    qed
  qed
qed


theorem trie_put_get_witness:
  "trie_Get TU32 (trie_Put (trie_Put None ''ab'' (U32 1)) ''ac'' (U32 2)) ''ac'' = Some (U32 2)
   \<and> trie_Get TStr (trie_Put None [] (Str ''x'')) [] = Some (Str ''x'')"
  using trie_put_get [of "''ac''" "U32 2" "trie_Put None ''ab'' (U32 1)"]
    trie_put_get [of "[]" "Str ''x''" None]
  by simp

end
